theory Spec2Isabelle
  imports Main
begin

section \<open>Type-list algorithms (type\_algorithms.hpp)\<close>

text \<open>
  The alternative list \<open>T, Ts ...\<close> of the templates is a list of type names \<open>'t\<close>;
  \<open>std::is_same<X, T>\<close> is equality of names. \<open>std::size_t\<close> values are natural
  numbers: the only arithmetic on them is \<open>1 + _\<close> over the length of a type list and
  \<open>index - 1\<close> under the guard \<open>index \<noteq> 0\<close>.
\<close>

fun type_length :: "'t list \<Rightarrow> nat" where
  "type_length [] = 0"
| "type_length (T # Ts) = 1 + type_length Ts"

fun type_has :: "'t \<Rightarrow> 't list \<Rightarrow> bool" where
  "type_has X [] = False"
| "type_has X (T # Ts) = (if X = T then True else type_has X Ts)"

fun type_first :: "'t \<Rightarrow> 't list \<Rightarrow> nat" where
  "type_first X [] = 0"
| "type_first X (T # Ts) = (if X = T then 0 else 1 + type_first X Ts)"

section \<open>Outcomes and object lifetimes\<close>

text \<open>
  An operation either completes or ends in one of these outcomes:
  \<^item> \<open>bad_variant_access\<close>: the exception of exceptions.hpp, with its reason;
  \<^item> \<open>assertion_failure\<close>: an \<open>assert\<close> of unified.hpp does not hold;
  \<^item> \<open>ill_formed\<close>: a \<open>static_assert\<close> or an \<open>enable_if\<close> rejects the call, so the
    program has no such call;
  \<^item> \<open>lifetime_violation\<close>: an alternative's destructor, assignment operator or a read
    is applied to storage that holds no object, or a constructor runs over an object
    that was never destroyed. The library is generic in the alternative types, whose
    special members are arbitrary code; the language gives such a call no meaning.

  The last outcome is that of an alternative of class type with its own special
  members, such as \<open>std::string\<close>. For a trivially assignable alternative, such as
  \<open>int\<close>, an assignment to a union member that holds no object starts the member's
  lifetime and completes; the embedding does not tell the two kinds apart, and what it
  says of an assignment to raw storage is said of alternatives of class type.
\<close>

datatype error =
    bad_variant_access string
  | assertion_failure
  | ill_formed
  | lifetime_violation

fun bind_result :: "error + 'a \<Rightarrow> ('a \<Rightarrow> error + 'b) \<Rightarrow> error + 'b" where
  "bind_result (Inl e) f = Inl e"
| "bind_result (Inr x) f = f x"

text \<open>
  The storage of one union member: raw memory, or an object of the member's type with
  its value. Values of all alternative types live in one type \<open>'v\<close>.
\<close>

datatype 'v cell = uninitialised | object 'v

text \<open>
  The expressions unified.hpp applies to a member. \<open>head.~T()\<close> is \<open>destroy\<close>,
  \<open>head = other.head\<close> is \<open>copy_assign\<close>, \<open>head = std::move(other.head)\<close> is
  \<open>move_assign\<close>, \<open>new (&head) T(other.head)\<close> is \<open>copy_construct\<close>,
  \<open>new (&head) T(std::move(other.head))\<close> is \<open>move_construct\<close>,
  \<open>head = std::forward<X>(x)\<close> is \<open>value_assign\<close>,
  \<open>new (&head) T(std::forward<X>(x))\<close> is \<open>value_construct\<close>, and
  \<open>head == other.head\<close>, \<open>head != other.head\<close> are \<open>compare\<close> with the alternative's
  own operator. A move leaves its source an object in the moved-from state \<open>mv w\<close>,
  where \<open>mv\<close> is a parameter of the embedding.
\<close>

fun destroy :: "'v cell \<Rightarrow> error + 'v cell" where
  "destroy (object v) = Inr uninitialised"
| "destroy uninitialised = Inl lifetime_violation"

fun copy_assign :: "'v cell \<Rightarrow> 'v cell \<Rightarrow> error + 'v cell" where
  "copy_assign (object v) (object w) = Inr (object w)"
| "copy_assign c d = Inl lifetime_violation"

fun move_assign :: "('v \<Rightarrow> 'v) \<Rightarrow> 'v cell \<Rightarrow> 'v cell \<Rightarrow> error + 'v cell \<times> 'v cell" where
  "move_assign mv (object v) (object w) = Inr (object w, object (mv w))"
| "move_assign mv c d = Inl lifetime_violation"

fun copy_construct :: "'v cell \<Rightarrow> 'v cell \<Rightarrow> error + 'v cell" where
  "copy_construct uninitialised (object w) = Inr (object w)"
| "copy_construct c d = Inl lifetime_violation"

fun move_construct :: "('v \<Rightarrow> 'v) \<Rightarrow> 'v cell \<Rightarrow> 'v cell \<Rightarrow> error + 'v cell \<times> 'v cell" where
  "move_construct mv uninitialised (object w) = Inr (object w, object (mv w))"
| "move_construct mv c d = Inl lifetime_violation"

fun value_assign :: "'v cell \<Rightarrow> 'v \<Rightarrow> error + 'v cell" where
  "value_assign (object v) x = Inr (object x)"
| "value_assign uninitialised x = Inl lifetime_violation"

fun value_construct :: "'v cell \<Rightarrow> 'v \<Rightarrow> error + 'v cell" where
  "value_construct uninitialised x = Inr (object x)"
| "value_construct (object v) x = Inl lifetime_violation"

fun compare :: "('v \<Rightarrow> 'v \<Rightarrow> bool) \<Rightarrow> 'v cell \<Rightarrow> 'v cell \<Rightarrow> error + bool" where
  "compare op (object v) (object w) = Inr (op v w)"
| "compare op c d = Inl lifetime_violation"

section \<open>Alternative storage (unified.hpp)\<close>

text \<open>
  The union template has two specialisations: \<open>unified<T>\<close> with the member \<open>head\<close>,
  and \<open>unified<T1, T2, Ts ...>\<close> with the members \<open>head\<close> and \<open>tail\<close>. Each is a
  constructor here, and each member function is one equation per specialisation. Both
  operands of a binary member function have the same union type, so \<open>other.head\<close> and
  \<open>other.tail\<close> are the selectors of the same constructor.

  The embedding follows the bodies of the member functions. It does not model their
  const qualification: \<open>is_equal\<close> and \<open>is_not_equal\<close> are not declared \<open>const\<close>, and
  \<open>initialise_copy\<close> of the one-member union takes \<open>unified &\<close>, while the variant calls
  them on \<open>const\<close> operands, which a conforming compiler refuses. What is proved of
  comparison and of copy assignment is proved of these bodies.
\<close>

datatype ('t, 'v) unified =
    unified_one (head_type: 't) (head: "'v cell")
  | unified_more (head_type: 't) (head: "'v cell") (tail: "('t, 'v) unified")

text \<open>The constructor \<open>unified() {}\<close> constructs no member.\<close>

fun unified_new :: "'t \<Rightarrow> 't list \<Rightarrow> ('t, 'v) unified" where
  "unified_new T [] = unified_one T uninitialised"
| "unified_new T1 (T2 # Ts) = unified_more T1 uninitialised (unified_new T2 Ts)"

text \<open>Writing a member of \<open>other\<close>, which the moving functions take by reference.\<close>

fun with_head :: "'v cell \<Rightarrow> ('t, 'v) unified \<Rightarrow> ('t, 'v) unified" where
  "with_head c (unified_one T h) = unified_one T c"
| "with_head c (unified_more T1 h t) = unified_more T1 c t"

fun with_tail :: "('t, 'v) unified \<Rightarrow> ('t, 'v) unified \<Rightarrow> ('t, 'v) unified" where
  "with_tail t' (unified_one T h) = unified_one T h"
| "with_tail t' (unified_more T1 h t) = unified_more T1 h t'"

fun unified_get :: "'t \<Rightarrow> ('t, 'v) unified \<Rightarrow> error + 'v cell" where
  "unified_get X (unified_one T h) = (if X = T then Inr h else Inl ill_formed)"
| "unified_get X (unified_more T1 h t) = (if X = T1 then Inr h else unified_get X t)"

fun unified_destruct :: "nat \<Rightarrow> ('t, 'v) unified \<Rightarrow> error + ('t, 'v) unified" where
  "unified_destruct index (unified_one T h) =
     (if index = 0 then bind_result (destroy h) (\<lambda>h'. Inr (unified_one T h'))
      else Inl assertion_failure)"
| "unified_destruct index (unified_more T1 h t) =
     (if index = 0 then bind_result (destroy h) (\<lambda>h'. Inr (unified_more T1 h' t))
      else bind_result (unified_destruct (index - 1) t) (\<lambda>t'. Inr (unified_more T1 h t')))"

fun unified_copy ::
  "nat \<Rightarrow> ('t, 'v) unified \<Rightarrow> ('t, 'v) unified \<Rightarrow> error + ('t, 'v) unified" where
  "unified_copy index (unified_one T h) other =
     (if index = 0
      then bind_result (copy_assign h (head other)) (\<lambda>h'. Inr (unified_one T h'))
      else Inl assertion_failure)"
| "unified_copy index (unified_more T1 h t) other =
     (if index = 0
      then bind_result (copy_assign h (head other)) (\<lambda>h'. Inr (unified_more T1 h' t))
      else bind_result (unified_copy (index - 1) t (tail other))
             (\<lambda>t'. Inr (unified_more T1 h t')))"

fun unified_move ::
  "('v \<Rightarrow> 'v) \<Rightarrow> nat \<Rightarrow> ('t, 'v) unified \<Rightarrow> ('t, 'v) unified \<Rightarrow>
   error + ('t, 'v) unified \<times> ('t, 'v) unified" where
  "unified_move mv index (unified_one T h) other =
     (if index = 0
      then bind_result (move_assign mv h (head other))
             (\<lambda>(h', oh'). Inr (unified_one T h', with_head oh' other))
      else Inl assertion_failure)"
| "unified_move mv index (unified_more T1 h t) other =
     (if index = 0
      then bind_result (move_assign mv h (head other))
             (\<lambda>(h', oh'). Inr (unified_more T1 h' t, with_head oh' other))
      else bind_result (unified_move mv (index - 1) t (tail other))
             (\<lambda>(t', ot'). Inr (unified_more T1 h t', with_tail ot' other)))"

fun unified_assign :: "'t \<Rightarrow> 'v \<Rightarrow> ('t, 'v) unified \<Rightarrow> error + ('t, 'v) unified" where
  "unified_assign X x (unified_one T h) =
     (if X = T then bind_result (value_assign h x) (\<lambda>h'. Inr (unified_one T h'))
      else Inl ill_formed)"
| "unified_assign X x (unified_more T1 h t) =
     (if X = T1 then bind_result (value_assign h x) (\<lambda>h'. Inr (unified_more T1 h' t))
      else bind_result (unified_assign X x t) (\<lambda>t'. Inr (unified_more T1 h t')))"

fun unified_initialise_copy ::
  "nat \<Rightarrow> ('t, 'v) unified \<Rightarrow> ('t, 'v) unified \<Rightarrow> error + ('t, 'v) unified" where
  "unified_initialise_copy index (unified_one T h) other =
     (if index = 0
      then bind_result (copy_construct h (head other)) (\<lambda>h'. Inr (unified_one T h'))
      else Inl assertion_failure)"
| "unified_initialise_copy index (unified_more T1 h t) other =
     (if index = 0
      then bind_result (copy_construct h (head other)) (\<lambda>h'. Inr (unified_more T1 h' t))
      else bind_result (unified_initialise_copy (index - 1) t (tail other))
             (\<lambda>t'. Inr (unified_more T1 h t')))"

fun unified_initialise_move ::
  "('v \<Rightarrow> 'v) \<Rightarrow> nat \<Rightarrow> ('t, 'v) unified \<Rightarrow> ('t, 'v) unified \<Rightarrow>
   error + ('t, 'v) unified \<times> ('t, 'v) unified" where
  "unified_initialise_move mv index (unified_one T h) other =
     (if index = 0
      then bind_result (move_construct mv h (head other))
             (\<lambda>(h', oh'). Inr (unified_one T h', with_head oh' other))
      else Inl assertion_failure)"
| "unified_initialise_move mv index (unified_more T1 h t) other =
     (if index = 0
      then bind_result (move_construct mv h (head other))
             (\<lambda>(h', oh'). Inr (unified_more T1 h' t, with_head oh' other))
      else bind_result (unified_initialise_move mv (index - 1) t (tail other))
             (\<lambda>(t', ot'). Inr (unified_more T1 h t', with_tail ot' other)))"

fun unified_initialise :: "'t \<Rightarrow> 'v \<Rightarrow> ('t, 'v) unified \<Rightarrow> error + ('t, 'v) unified" where
  "unified_initialise X x (unified_one T h) =
     (if X = T then bind_result (value_construct h x) (\<lambda>h'. Inr (unified_one T h'))
      else Inl ill_formed)"
| "unified_initialise X x (unified_more T1 h t) =
     (if X = T1 then bind_result (value_construct h x) (\<lambda>h'. Inr (unified_more T1 h' t))
      else bind_result (unified_initialise X x t) (\<lambda>t'. Inr (unified_more T1 h t')))"

text \<open>
  The recursive \<open>is_equal\<close> calls \<open>tail.is_eqal\<close>, a name no specialisation declares;
  the embedding reads it as the recursive call \<open>tail.is_equal\<close> that \<open>is_not_equal\<close>
  makes in the same place.
\<close>

fun unified_is_equal ::
  "('v \<Rightarrow> 'v \<Rightarrow> bool) \<Rightarrow> nat \<Rightarrow> ('t, 'v) unified \<Rightarrow> ('t, 'v) unified \<Rightarrow> error + bool" where
  "unified_is_equal eq index (unified_one T h) other =
     (if index = 0 then compare eq h (head other) else Inl assertion_failure)"
| "unified_is_equal eq index (unified_more T1 h t) other =
     (if index = 0 then compare eq h (head other)
      else unified_is_equal eq (index - 1) t (tail other))"

fun unified_is_not_equal ::
  "('v \<Rightarrow> 'v \<Rightarrow> bool) \<Rightarrow> nat \<Rightarrow> ('t, 'v) unified \<Rightarrow> ('t, 'v) unified \<Rightarrow> error + bool" where
  "unified_is_not_equal ne index (unified_one T h) other =
     (if index = 0 then compare ne h (head other) else Inl assertion_failure)"
| "unified_is_not_equal ne index (unified_more T1 h t) other =
     (if index = 0 then compare ne h (head other)
      else unified_is_not_equal ne (index - 1) t (tail other))"

section \<open>Tagged value (variant.hpp)\<close>

text \<open>
  An object of class \<open>variant<DefaultConstructable, T, Ts ...>\<close> has the two data
  members below. The template arguments are parameters of every member function.

  The member functions are given for either value of \<open>DefaultConstructable\<close>, as their
  bodies read. The class itself has instances only for \<open>true\<close>: the default
  constructor, the constructor from \<open>nullvariant_t\<close> and \<open>operator = (nullvariant_t)\<close>
  are member templates whose default template argument is
  \<open>typename std::enable_if<DefaultConstructable>::type\<close>, which names no parameter of
  the member template and so is resolved where the class is instantiated; for \<open>false\<close>
  it names no type, and \<open>variant<false, T, Ts ...>\<close> is rejected. What is proved with
  \<open>DefaultConstructable = False\<close> is therefore proved of the bodies only.
\<close>

record ('t, 'v) variant =
  active_index :: nat
  "values" :: "('t, 'v) unified"

definition none_initialised :: "'t \<Rightarrow> 't list \<Rightarrow> nat" where
  "none_initialised T Ts = type_length (T # Ts)"

text \<open>
  Assignment takes its operand by reference, and the operand may be the object
  assigned to. So the objects live in a store, addressed by numbers, and the member
  functions take the addresses \<open>self\<close> (for \<open>this\<close>) and \<open>other\<close>. The store also records,
  in order, every call a variant makes into its storage, as instrumented alternative
  types would count them.
\<close>

datatype 't call =
    call_destruct nat
  | call_copy nat
  | call_move nat
  | call_assign 't
  | call_initialise_copy nat
  | call_initialise_move nat
  | call_initialise 't

record ('t, 'v) state =
  heap :: "nat \<Rightarrow> ('t, 'v) variant"
  calls :: "(nat \<times> 't call) list"

definition set_values :: "nat \<Rightarrow> ('t, 'v) unified \<Rightarrow> ('t, 'v) state \<Rightarrow> ('t, 'v) state" where
  "set_values p u s = s\<lparr>heap := (heap s)(p := (heap s p)\<lparr>values := u\<rparr>)\<rparr>"

definition set_active_index :: "nat \<Rightarrow> nat \<Rightarrow> ('t, 'v) state \<Rightarrow> ('t, 'v) state" where
  "set_active_index p i s = s\<lparr>heap := (heap s)(p := (heap s p)\<lparr>active_index := i\<rparr>)\<rparr>"

definition record_call :: "nat \<Rightarrow> 't call \<Rightarrow> ('t, 'v) state \<Rightarrow> ('t, 'v) state" where
  "record_call p c s = s\<lparr>calls := calls s @ [(p, c)]\<rparr>"

text \<open>
  The calls \<open>values.f(...)\<close> of the object at \<open>self\<close>. The moving calls write
  \<open>other.values\<close> too; when \<open>other\<close> is \<open>self\<close> the alternative's own self-move decides
  the value, which the embedding takes to be the moved-from state.
\<close>

definition values_destruct :: "nat \<Rightarrow> nat \<Rightarrow> ('t, 'v) state \<Rightarrow> error + ('t, 'v) state" where
  "values_destruct self index s =
     bind_result (unified_destruct index (values (heap s self)))
       (\<lambda>u. Inr (set_values self u (record_call self (call_destruct index) s)))"

definition values_copy ::
  "nat \<Rightarrow> nat \<Rightarrow> nat \<Rightarrow> ('t, 'v) state \<Rightarrow> error + ('t, 'v) state" where
  "values_copy self index other s =
     bind_result (unified_copy index (values (heap s self)) (values (heap s other)))
       (\<lambda>u. Inr (set_values self u (record_call self (call_copy index) s)))"

definition values_move ::
  "('v \<Rightarrow> 'v) \<Rightarrow> nat \<Rightarrow> nat \<Rightarrow> nat \<Rightarrow> ('t, 'v) state \<Rightarrow> error + ('t, 'v) state" where
  "values_move mv self index other s =
     bind_result (unified_move mv index (values (heap s self)) (values (heap s other)))
       (\<lambda>(u, ou). Inr (set_values other ou
                        (set_values self u (record_call self (call_move index) s))))"

definition values_initialise_copy ::
  "nat \<Rightarrow> nat \<Rightarrow> nat \<Rightarrow> ('t, 'v) state \<Rightarrow> error + ('t, 'v) state" where
  "values_initialise_copy self index other s =
     bind_result
       (unified_initialise_copy index (values (heap s self)) (values (heap s other)))
       (\<lambda>u. Inr (set_values self u (record_call self (call_initialise_copy index) s)))"

definition values_initialise_move ::
  "('v \<Rightarrow> 'v) \<Rightarrow> nat \<Rightarrow> nat \<Rightarrow> nat \<Rightarrow> ('t, 'v) state \<Rightarrow> error + ('t, 'v) state" where
  "values_initialise_move mv self index other s =
     bind_result
       (unified_initialise_move mv index (values (heap s self)) (values (heap s other)))
       (\<lambda>(u, ou). Inr (set_values other ou
                        (set_values self u (record_call self (call_initialise_move index) s))))"

definition values_initialise ::
  "nat \<Rightarrow> 't \<Rightarrow> 'v \<Rightarrow> ('t, 'v) state \<Rightarrow> error + ('t, 'v) state" where
  "values_initialise self X x s =
     bind_result (unified_initialise X x (values (heap s self)))
       (\<lambda>u. Inr (set_values self u (record_call self (call_initialise X) s)))"

definition values_assign ::
  "nat \<Rightarrow> 't \<Rightarrow> 'v \<Rightarrow> ('t, 'v) state \<Rightarrow> error + ('t, 'v) state" where
  "values_assign self X x s =
     bind_result (unified_assign X x (values (heap s self)))
       (\<lambda>u. Inr (set_values self u (record_call self (call_assign X) s)))"

text \<open>
  A constructor runs on a new object at \<open>self\<close>, whose storage holds no alternative yet;
  its first statement sets \<open>active_index\<close>.
\<close>

definition new_object :: "'t \<Rightarrow> 't list \<Rightarrow> nat \<Rightarrow> nat \<Rightarrow> ('t, 'v) state \<Rightarrow> ('t, 'v) state" where
  "new_object T Ts self i s =
     s\<lparr>heap := (heap s)(self := \<lparr>active_index = i, values = unified_new T Ts\<rparr>)\<rparr>"

text \<open>The default constructor and the constructor from \<open>nullvariant_t\<close> (nullable only).\<close>

definition variant_default :: "'t \<Rightarrow> 't list \<Rightarrow> nat \<Rightarrow> ('t, 'v) state \<Rightarrow> ('t, 'v) state" where
  "variant_default T Ts self s = new_object T Ts self (none_initialised T Ts) s"

text \<open>The copy constructor \<open>variant(const variant & other)\<close>.\<close>

definition variant_copy_construct ::
  "'t \<Rightarrow> 't list \<Rightarrow> nat \<Rightarrow> nat \<Rightarrow> ('t, 'v) state \<Rightarrow> error + ('t, 'v) state" where
  "variant_copy_construct T Ts self other s =
     (let s1 = new_object T Ts self (active_index (heap s other)) s in
      if active_index (heap s1 self) \<noteq> none_initialised T Ts
      then values_copy self (active_index (heap s1 self)) other s1
      else Inr s1)"

text \<open>The move constructor \<open>variant(variant && other)\<close>.\<close>

definition variant_move_construct ::
  "('v \<Rightarrow> 'v) \<Rightarrow> bool \<Rightarrow> 't \<Rightarrow> 't list \<Rightarrow> nat \<Rightarrow> nat \<Rightarrow> ('t, 'v) state \<Rightarrow>
   error + ('t, 'v) state" where
  "variant_move_construct mv DefaultConstructable T Ts self other s =
     (let s1 = new_object T Ts self (active_index (heap s other)) s in
      if active_index (heap s1 self) \<noteq> none_initialised T Ts
      then bind_result (values_move mv self (active_index (heap s1 self)) other s1)
             (\<lambda>s2. if DefaultConstructable
                    then bind_result
                           (values_destruct other (active_index (heap s2 self)) s2)
                           (\<lambda>s3. Inr (set_active_index other (none_initialised T Ts) s3))
                    else Inr s2)
      else Inr s1)"

text \<open>The initialising constructor \<open>variant(X && x)\<close>, enabled when \<open>X\<close> is listed.\<close>

definition variant_construct ::
  "'t \<Rightarrow> 't list \<Rightarrow> 't \<Rightarrow> 'v \<Rightarrow> nat \<Rightarrow> ('t, 'v) state \<Rightarrow> error + ('t, 'v) state" where
  "variant_construct T Ts X x self s =
     (if \<not> type_has X (T # Ts) then Inl ill_formed
      else values_initialise self X x (new_object T Ts self (type_first X (T # Ts)) s))"

text \<open>The destructor.\<close>

definition variant_destroy ::
  "'t \<Rightarrow> 't list \<Rightarrow> nat \<Rightarrow> ('t, 'v) state \<Rightarrow> error + ('t, 'v) state" where
  "variant_destroy T Ts self s =
     (if active_index (heap s self) \<noteq> none_initialised T Ts
      then values_destruct self (active_index (heap s self)) s
      else Inr s)"

text \<open>Copy assignment \<open>operator = (const variant & other)\<close>.\<close>

definition variant_copy_assign ::
  "'t \<Rightarrow> 't list \<Rightarrow> nat \<Rightarrow> nat \<Rightarrow> ('t, 'v) state \<Rightarrow> error + ('t, 'v) state" where
  "variant_copy_assign T Ts self other s =
     bind_result
       (if active_index (heap s self) = none_initialised T Ts \<and>
           active_index (heap s other) \<noteq> none_initialised T Ts
        then values_initialise_copy self (active_index (heap s other)) other s
        else if active_index (heap s self) \<noteq> none_initialised T Ts \<and>
                active_index (heap s other) = none_initialised T Ts
        then values_destruct self (active_index (heap s self)) s
        else if active_index (heap s self) \<noteq> none_initialised T Ts \<and>
                active_index (heap s other) \<noteq> none_initialised T Ts
        then (if active_index (heap s self) = active_index (heap s other)
              then values_copy self (active_index (heap s self)) other s
              else bind_result (values_destruct self (active_index (heap s self)) s)
                     (\<lambda>s1. values_initialise_copy self (active_index (heap s1 other)) other s1))
        else Inr s)
       (\<lambda>s2. Inr (set_active_index self (active_index (heap s2 other)) s2))"

text \<open>Move assignment \<open>operator = (variant && other)\<close>.\<close>

definition variant_move_assign ::
  "('v \<Rightarrow> 'v) \<Rightarrow> bool \<Rightarrow> 't \<Rightarrow> 't list \<Rightarrow> nat \<Rightarrow> nat \<Rightarrow> ('t, 'v) state \<Rightarrow>
   error + ('t, 'v) state" where
  "variant_move_assign mv DefaultConstructable T Ts self other s =
     bind_result
       (if active_index (heap s self) = none_initialised T Ts \<and>
           active_index (heap s other) \<noteq> none_initialised T Ts
        then values_initialise_move mv self (active_index (heap s other)) other s
        else if active_index (heap s self) \<noteq> none_initialised T Ts \<and>
                active_index (heap s other) = none_initialised T Ts
        then values_destruct self (active_index (heap s self)) s
        else if active_index (heap s self) \<noteq> none_initialised T Ts \<and>
                active_index (heap s other) \<noteq> none_initialised T Ts
        then (if active_index (heap s self) = active_index (heap s other)
              then values_move mv self (active_index (heap s self)) other s
              else bind_result (values_destruct self (active_index (heap s self)) s)
                     (\<lambda>s1. values_initialise_move mv self (active_index (heap s1 other))
                             other s1))
        else Inr s)
       (\<lambda>s2. let s3 = set_active_index self (active_index (heap s2 other)) s2 in
              if active_index (heap s3 other) \<noteq> none_initialised T Ts \<and> DefaultConstructable
              then bind_result (values_destruct other (active_index (heap s3 other)) s3)
                     (\<lambda>s4. Inr (set_active_index other (none_initialised T Ts) s4))
              else Inr s3)"

text \<open>Assignment of the empty sentinel \<open>operator = (nullvariant_t)\<close> (nullable only).\<close>

definition variant_assign_null ::
  "'t \<Rightarrow> 't list \<Rightarrow> nat \<Rightarrow> ('t, 'v) state \<Rightarrow> error + ('t, 'v) state" where
  "variant_assign_null T Ts self s =
     (if active_index (heap s self) \<noteq> none_initialised T Ts
      then bind_result (values_destruct self (active_index (heap s self)) s)
             (\<lambda>s1. Inr (set_active_index self (none_initialised T Ts) s1))
      else Inr s)"

text \<open>Assignment of an alternative value \<open>operator = (X && x)\<close>, enabled when \<open>X\<close> is listed.\<close>

definition variant_assign ::
  "'t \<Rightarrow> 't list \<Rightarrow> 't \<Rightarrow> 'v \<Rightarrow> nat \<Rightarrow> ('t, 'v) state \<Rightarrow> error + ('t, 'v) state" where
  "variant_assign T Ts X x self s =
     (if \<not> type_has X (T # Ts) then Inl ill_formed
      else
        let new_active_index = type_first X (T # Ts) in
        bind_result
          (if active_index (heap s self) = none_initialised T Ts
           then values_initialise self X x s
           else if active_index (heap s self) = new_active_index
           then values_assign self X x s
           else bind_result (values_destruct self (active_index (heap s self)) s)
                  (\<lambda>s1. values_initialise self X x s1))
          (\<lambda>s2. Inr (set_active_index self new_active_index s2)))"

text \<open>
  The checked accessor \<open>get<X>()\<close>. It returns a reference to a member of the storage;
  the embedding returns the member the reference designates.
\<close>

definition variant_get :: "'t \<Rightarrow> 't list \<Rightarrow> 't \<Rightarrow> ('t, 'v) variant \<Rightarrow> error + 'v cell" where
  "variant_get T Ts X v =
     (if \<not> type_has X (T # Ts) then Inl ill_formed
      else
        let x_index = type_first X (T # Ts) in
        if x_index \<noteq> active_index v
        then Inl (bad_variant_access ''invalid access on currently not active object!'')
        else unified_get X (values v))"

text \<open>The unchecked accessor \<open>get_unsafe<X>()\<close>.\<close>

definition variant_get_unsafe :: "'t \<Rightarrow> 't list \<Rightarrow> 't \<Rightarrow> ('t, 'v) variant \<Rightarrow> error + 'v cell" where
  "variant_get_unsafe T Ts X v =
     (if \<not> type_has X (T # Ts) then Inl ill_formed else unified_get X (values v))"

text \<open>
  \<open>try_get<X>()\<close> passes \<open>std::move(values.get<X>())\<close> to \<open>boost::make_optional\<close> with
  the condition \<open>x_index == active_index\<close>. The reference is formed in either case; the
  optional is constructed from it, by a move, only when the condition holds, and that
  move leaves the stored alternative in the moved-from state. \<open>unified_put\<close> is the write
  through the reference that \<open>get<X>()\<close> returns.
\<close>

fun unified_put :: "'t \<Rightarrow> 'v cell \<Rightarrow> ('t, 'v) unified \<Rightarrow> ('t, 'v) unified" where
  "unified_put X c (unified_one T h) = (if X = T then unified_one T c else unified_one T h)"
| "unified_put X c (unified_more T1 h t) =
     (if X = T1 then unified_more T1 c t else unified_more T1 h (unified_put X c t))"

definition variant_try_get ::
  "('v \<Rightarrow> 'v) \<Rightarrow> 't \<Rightarrow> 't list \<Rightarrow> 't \<Rightarrow> ('t, 'v) variant \<Rightarrow>
   error + 'v option \<times> ('t, 'v) variant" where
  "variant_try_get mv T Ts X v =
     (if \<not> type_has X (T # Ts) then Inl ill_formed
      else
        let x_index = type_first X (T # Ts) in
        bind_result (unified_get X (values v))
          (\<lambda>r. if x_index = active_index v
                then (case r of
                        object w \<Rightarrow> Inr (Some w, v\<lparr>values := unified_put X (object (mv w)) (values v)\<rparr>)
                      | uninitialised \<Rightarrow> Inl lifetime_violation)
                else Inr (None, v)))"

text \<open>Comparison with the empty sentinel.\<close>

definition variant_is_null :: "'t \<Rightarrow> 't list \<Rightarrow> ('t, 'v) variant \<Rightarrow> bool" where
  "variant_is_null T Ts v \<longleftrightarrow> active_index v = none_initialised T Ts"

definition variant_is_not_null :: "'t \<Rightarrow> 't list \<Rightarrow> ('t, 'v) variant \<Rightarrow> bool" where
  "variant_is_not_null T Ts v \<longleftrightarrow> active_index v \<noteq> none_initialised T Ts"

text \<open>
  \<open>operator ==\<close> and \<open>operator !=\<close> between two variants, with \<open>&&\<close> and \<open>||\<close> evaluating
  their right operand only when the left one does not decide.
\<close>

definition variant_equal ::
  "('v \<Rightarrow> 'v \<Rightarrow> bool) \<Rightarrow> 't \<Rightarrow> 't list \<Rightarrow> ('t, 'v) variant \<Rightarrow> ('t, 'v) variant \<Rightarrow>
   error + bool" where
  "variant_equal eq T Ts first second =
     (if active_index first = active_index second
      then (if active_index first = none_initialised T Ts then Inr True
            else unified_is_equal eq (active_index first) (values first) (values second))
      else Inr False)"

definition variant_not_equal ::
  "('v \<Rightarrow> 'v \<Rightarrow> bool) \<Rightarrow> 't \<Rightarrow> 't list \<Rightarrow> ('t, 'v) variant \<Rightarrow> ('t, 'v) variant \<Rightarrow>
   error + bool" where
  "variant_not_equal ne T Ts first second =
     (if active_index first \<noteq> active_index second then Inr True
      else unified_is_not_equal ne (active_index first) (values first) (values second))"

section \<open>Reading the storage: members by index, and the invariant\<close>

text \<open>
  The members of a union and their types, in declaration order, and the union with the
  member at an index replaced. These are not functions of the source: they state what
  its functions do.
\<close>

fun unified_cells :: "('t, 'v) unified \<Rightarrow> 'v cell list" where
  "unified_cells (unified_one T h) = [h]"
| "unified_cells (unified_more T1 h t) = h # unified_cells t"

fun unified_types :: "('t, 'v) unified \<Rightarrow> 't list" where
  "unified_types (unified_one T h) = [T]"
| "unified_types (unified_more T1 h t) = T1 # unified_types t"

fun unified_update :: "nat \<Rightarrow> 'v cell \<Rightarrow> ('t, 'v) unified \<Rightarrow> ('t, 'v) unified" where
  "unified_update i c (unified_one T h) = (if i = 0 then unified_one T c else unified_one T h)"
| "unified_update i c (unified_more T1 h t) =
     (if i = 0 then unified_more T1 c t else unified_more T1 h (unified_update (i - 1) c t))"

text \<open>
  The invariant of a tagged value over the alternatives \<open>T, Ts ...\<close>: its storage is of
  that union type; \<open>active_index\<close> is at most \<open>N\<close>, and below \<open>N\<close> unless the variant is
  nullable; and for every index \<open>i\<close> below \<open>N\<close>, member \<open>i\<close> holds an object exactly when
  \<open>i\<close> is the active index. So for \<open>active_index = N\<close> no member holds an object, and for
  \<open>active_index = i < N\<close> member \<open>i\<close> and no other does.
\<close>

definition variant_invariant :: "bool \<Rightarrow> 't \<Rightarrow> 't list \<Rightarrow> ('t, 'v) variant \<Rightarrow> bool" where
  "variant_invariant DefaultConstructable T Ts v \<longleftrightarrow>
     unified_types (values v) = T # Ts \<and>
     active_index v \<le> none_initialised T Ts \<and>
     (DefaultConstructable \<or> active_index v < none_initialised T Ts) \<and>
     list_all (\<lambda>i. (unified_cells (values v) ! i \<noteq> uninitialised) = (i = active_index v))
       [0 ..< none_initialised T Ts]"

section \<open>Example alternatives\<close>

text \<open>
  The alternative list \<open>(int, string)\<close> of the specification's scenario, for concrete
  inputs: values of the two types, the state a move leaves its source in (an \<open>int\<close>
  keeps its value, a \<open>string\<close> is emptied), and a store with a variant holding the
  string \<open>hello\<close> at address 1, one holding the int 42 at address 2, one holding the
  string \<open>world\<close> at address 4, and an empty one at address 3 and everywhere else.
\<close>

datatype example_value = int_value int | string_value string

fun moved_from :: "example_value \<Rightarrow> example_value" where
  "moved_from (int_value n) = int_value n"
| "moved_from (string_value w) = string_value []"

definition holding_string :: "string \<Rightarrow> (string, example_value) variant" where
  "holding_string w =
     \<lparr>active_index = 1,
      values = unified_more ''int'' uninitialised (unified_one ''string'' (object (string_value w)))\<rparr>"

definition holding_int :: "int \<Rightarrow> (string, example_value) variant" where
  "holding_int n =
     \<lparr>active_index = 0,
      values = unified_more ''int'' (object (int_value n)) (unified_one ''string'' uninitialised)\<rparr>"

definition holding_nothing :: "(string, example_value) variant" where
  "holding_nothing =
     \<lparr>active_index = 2,
      values = unified_more ''int'' uninitialised (unified_one ''string'' uninitialised)\<rparr>"

definition example_state :: "(string, example_value) state" where
  "example_state =
     \<lparr>heap = (\<lambda>p. if p = 1 then holding_string ''hello''
                   else if p = 2 then holding_int 42
                   else if p = 4 then holding_string ''world''
                   else holding_nothing),
      calls = []\<rparr>"

section \<open>Properties of the type-list algorithms\<close>

lemma type_length_eq: "type_length Ts = length Ts"
  by (induction Ts) simp_all

lemma type_has_iff: "type_has X Ts \<longleftrightarrow> X \<in> set Ts"
  by (induction Ts) auto

lemma type_first_le: "type_first X Ts \<le> length Ts"
  by (induction Ts) simp_all

lemma type_first_absent: "X \<notin> set Ts \<Longrightarrow> type_first X Ts = length Ts"
  by (induction Ts) auto

lemma type_first_present: "X \<in> set Ts \<Longrightarrow> type_first X Ts < length Ts"
  by (induction Ts) auto

lemma type_first_nth: "X \<in> set Ts \<Longrightarrow> Ts ! type_first X Ts = X"
  by (induction Ts) auto

lemma type_first_least: "j < type_first X Ts \<Longrightarrow> Ts ! j \<noteq> X"
proof (induction Ts arbitrary: j)
  case Nil
  then show ?case by simp
next
  case (Cons T Ts)
  then show ?case by (cases j) (auto split: if_splits)
qed

text \<open>
  C8. For a type list of length \<open>n\<close> and a type \<open>X\<close>: \<open>has\<close> is membership; when \<open>X\<close>
  occurs, \<open>first\<close> is the index of its first occurrence (it is in range, the list
  holds \<open>X\<close> there and at no smaller index); when \<open>X\<close> does not occur, \<open>first\<close> is
  \<open>n\<close>; hence \<open>has\<close> holds exactly when \<open>first\<close> is below \<open>n\<close>.
\<close>

theorem type_has_first:
  "(type_has X Ts \<longleftrightarrow> X \<in> set Ts) \<and>
   (type_has X Ts \<longrightarrow>
      type_first X Ts < type_length Ts \<and> Ts ! type_first X Ts = X \<and>
      (\<forall>j < type_first X Ts. Ts ! j \<noteq> X)) \<and>
   (\<not> type_has X Ts \<longrightarrow> type_first X Ts = type_length Ts) \<and>
   (type_has X Ts \<longleftrightarrow> type_first X Ts < type_length Ts)"
proof -
  have absent: "\<not> type_has X Ts \<Longrightarrow> type_first X Ts = type_length Ts"
    by (simp add: type_has_iff type_first_absent type_length_eq)
  have present: "type_has X Ts \<Longrightarrow> type_first X Ts < type_length Ts"
    by (simp add: type_has_iff type_first_present type_length_eq)
  have least: "\<forall>j < type_first X Ts. Ts ! j \<noteq> X"
    by (auto dest: type_first_least)
  from absent present have "type_has X Ts \<longleftrightarrow> type_first X Ts < type_length Ts"
    by fastforce
  with absent present least show ?thesis
    by (simp add: type_has_iff type_first_nth)
qed

theorem type_has_first_witness:
  "type_has (2::nat) [1, 2, 3, 2] \<and> type_first (2::nat) [1, 2, 3, 2] = 1 \<and>
   [1::nat, 2, 3, 2] ! type_first (2::nat) [1, 2, 3, 2] = 2 \<and>
   \<not> type_has (5::nat) [1, 2, 3, 2] \<and> type_first (5::nat) [1, 2, 3, 2] = 4 \<and>
   type_length [1::nat, 2, 3, 2] = 4"
  using type_has_first [of "2::nat" "[1, 2, 3, 2]"] type_has_first [of "5::nat" "[1, 2, 3, 2]"]
  by simp

section \<open>What the storage functions do, member by member\<close>

lemma unified_cells_length: "length (unified_cells u) = length (unified_types u)"
  by (induction u) simp_all

lemma unified_types_nonempty [simp]: "unified_types u \<noteq> []" "[] \<noteq> unified_types u"
  by (cases u; simp)+

lemma unified_new_types: "unified_types (unified_new T Ts) = T # Ts"
  by (induction Ts arbitrary: T) simp_all

lemma unified_new_cells:
  "unified_cells (unified_new T Ts :: ('t, 'v) unified) = replicate (Suc (length Ts)) uninitialised"
  by (induction Ts arbitrary: T) simp_all

lemma unified_update_types: "unified_types (unified_update i c u) = unified_types u"
  by (induction u arbitrary: i) simp_all

lemma unified_update_cells: "unified_cells (unified_update i c u) = (unified_cells u)[i := c]"
proof (induction u arbitrary: i)
  case (unified_one T h)
  then show ?case by (cases i) simp_all
next
  case (unified_more T h t)
  then show ?case by (cases i) simp_all
qed

lemma unified_destruct_live:
  "i < length (unified_cells u) \<Longrightarrow> unified_cells u ! i = object v \<Longrightarrow>
   unified_destruct i u = Inr (unified_update i uninitialised u)"
proof (induction u arbitrary: i)
  case (unified_one T h)
  then show ?case by simp
next
  case (unified_more T h t)
  then show ?case by (cases i) simp_all
qed

lemma unified_destruct_raw:
  "i < length (unified_cells u) \<Longrightarrow> unified_cells u ! i = uninitialised \<Longrightarrow>
   unified_destruct i u = Inl lifetime_violation"
proof (induction u arbitrary: i)
  case (unified_one T h)
  then show ?case by simp
next
  case (unified_more T h t)
  then show ?case by (cases i) simp_all
qed

lemma unified_destruct_range:
  "length (unified_cells u) \<le> i \<Longrightarrow> unified_destruct i u = Inl assertion_failure"
proof (induction u arbitrary: i)
  case (unified_one T h)
  then show ?case by simp
next
  case (unified_more T h t)
  then show ?case by (cases i) simp_all
qed

lemma unified_copy_live:
  "unified_types other = unified_types u \<Longrightarrow> i < length (unified_cells u) \<Longrightarrow>
   unified_cells u ! i = object v \<Longrightarrow> unified_cells other ! i = object w \<Longrightarrow>
   unified_copy i u other = Inr (unified_update i (object w) u)"
proof (induction u arbitrary: i other)
  case (unified_one T h)
  then show ?case by (cases other) simp_all
next
  case (unified_more T h t)
  then show ?case by (cases other; cases i) simp_all
qed

lemma unified_copy_raw:
  "unified_types other = unified_types u \<Longrightarrow> i < length (unified_cells u) \<Longrightarrow>
   unified_cells u ! i = uninitialised \<Longrightarrow>
   unified_copy i u other = Inl lifetime_violation"
proof (induction u arbitrary: i other)
  case (unified_one T h)
  then show ?case by (cases other) simp_all
next
  case (unified_more T h t)
  then show ?case by (cases other; cases i) simp_all
qed

lemma unified_move_live:
  "unified_types other = unified_types u \<Longrightarrow> i < length (unified_cells u) \<Longrightarrow>
   unified_cells u ! i = object v \<Longrightarrow> unified_cells other ! i = object w \<Longrightarrow>
   unified_move mv i u other =
     Inr (unified_update i (object w) u, unified_update i (object (mv w)) other)"
proof (induction u arbitrary: i other)
  case (unified_one T h)
  then show ?case by (cases other) simp_all
next
  case (unified_more T h t)
  then show ?case by (cases other; cases i) simp_all
qed

lemma unified_move_raw:
  "unified_types other = unified_types u \<Longrightarrow> i < length (unified_cells u) \<Longrightarrow>
   unified_cells u ! i = uninitialised \<Longrightarrow>
   unified_move mv i u other = Inl lifetime_violation"
proof (induction u arbitrary: i other)
  case (unified_one T h)
  then show ?case by (cases other) simp_all
next
  case (unified_more T h t)
  then show ?case by (cases other; cases i) simp_all
qed

lemma unified_initialise_copy_raw:
  "unified_types other = unified_types u \<Longrightarrow> i < length (unified_cells u) \<Longrightarrow>
   unified_cells u ! i = uninitialised \<Longrightarrow> unified_cells other ! i = object w \<Longrightarrow>
   unified_initialise_copy i u other = Inr (unified_update i (object w) u)"
proof (induction u arbitrary: i other)
  case (unified_one T h)
  then show ?case by (cases other) simp_all
next
  case (unified_more T h t)
  then show ?case by (cases other; cases i) simp_all
qed

lemma unified_initialise_move_raw:
  "unified_types other = unified_types u \<Longrightarrow> i < length (unified_cells u) \<Longrightarrow>
   unified_cells u ! i = uninitialised \<Longrightarrow> unified_cells other ! i = object w \<Longrightarrow>
   unified_initialise_move mv i u other =
     Inr (unified_update i (object w) u, unified_update i (object (mv w)) other)"
proof (induction u arbitrary: i other)
  case (unified_one T h)
  then show ?case by (cases other) simp_all
next
  case (unified_more T h t)
  then show ?case by (cases other; cases i) simp_all
qed

lemma unified_is_equal_live:
  "unified_types other = unified_types u \<Longrightarrow> i < length (unified_cells u) \<Longrightarrow>
   unified_cells u ! i = object v \<Longrightarrow> unified_cells other ! i = object w \<Longrightarrow>
   unified_is_equal eq i u other = Inr (eq v w)"
proof (induction u arbitrary: i other)
  case (unified_one T h)
  then show ?case by (cases other) simp_all
next
  case (unified_more T h t)
  then show ?case by (cases other; cases i) simp_all
qed

lemma unified_is_not_equal_live:
  "unified_types other = unified_types u \<Longrightarrow> i < length (unified_cells u) \<Longrightarrow>
   unified_cells u ! i = object v \<Longrightarrow> unified_cells other ! i = object w \<Longrightarrow>
   unified_is_not_equal ne i u other = Inr (ne v w)"
proof (induction u arbitrary: i other)
  case (unified_one T h)
  then show ?case by (cases other) simp_all
next
  case (unified_more T h t)
  then show ?case by (cases other; cases i) simp_all
qed

lemma unified_is_not_equal_range:
  "length (unified_cells u) \<le> i \<Longrightarrow> unified_is_not_equal ne i u other = Inl assertion_failure"
proof (induction u arbitrary: i other)
  case (unified_one T h)
  then show ?case by simp
next
  case (unified_more T h t)
  then show ?case by (cases i) simp_all
qed

lemma unified_get_first:
  "type_has X (unified_types u) \<Longrightarrow>
   unified_get X u = Inr (unified_cells u ! type_first X (unified_types u))"
  by (induction u) (auto split: if_splits)

lemma unified_put_first:
  "type_has X (unified_types u) \<Longrightarrow>
   unified_put X c u = unified_update (type_first X (unified_types u)) c u"
  by (induction u) (auto split: if_splits)

lemma unified_assign_live:
  "type_has X (unified_types u) \<Longrightarrow>
   unified_cells u ! type_first X (unified_types u) = object v \<Longrightarrow>
   unified_assign X x u = Inr (unified_update (type_first X (unified_types u)) (object x) u)"
  by (induction u) (auto split: if_splits)

lemma unified_initialise_raw:
  "type_has X (unified_types u) \<Longrightarrow>
   unified_cells u ! type_first X (unified_types u) = uninitialised \<Longrightarrow>
   unified_initialise X x u = Inr (unified_update (type_first X (unified_types u)) (object x) u)"
  by (induction u) (auto split: if_splits)

lemma list_all_upt: "list_all P [0 ..< n] \<longleftrightarrow> (\<forall>i < n. P i)"
  by (auto simp: list_all_iff)

lemma none_initialised_eq: "none_initialised T Ts = Suc (length Ts)"
  by (simp add: none_initialised_def type_length_eq)

lemma variant_invariant_iff:
  "variant_invariant DC T Ts v \<longleftrightarrow>
     unified_types (values v) = T # Ts \<and>
     active_index v \<le> Suc (length Ts) \<and>
     (DC \<or> active_index v < Suc (length Ts)) \<and>
     (\<forall>i < Suc (length Ts). (unified_cells (values v) ! i \<noteq> uninitialised) = (i = active_index v))"
  by (simp only: variant_invariant_def list_all_upt none_initialised_eq)

section \<open>Consequences of the invariant\<close>

lemma invariant_types: "variant_invariant DC T Ts v \<Longrightarrow> unified_types (values v) = T # Ts"
  by (simp add: variant_invariant_iff)

lemma invariant_length:
  "variant_invariant DC T Ts v \<Longrightarrow> length (unified_cells (values v)) = Suc (length Ts)"
  by (simp add: variant_invariant_iff unified_cells_length)

lemma invariant_active_live:
  assumes "variant_invariant DC T Ts v" and "active_index v \<noteq> none_initialised T Ts"
  shows "\<exists>x. unified_cells (values v) ! active_index v = object x"
proof -
  from assms have "active_index v < Suc (length Ts)"
    by (simp add: variant_invariant_iff none_initialised_eq)
  with assms(1) have "unified_cells (values v) ! active_index v \<noteq> uninitialised"
    by (simp add: variant_invariant_iff)
  then show ?thesis by (cases "unified_cells (values v) ! active_index v") simp_all
qed

lemma invariant_inactive_raw:
  "variant_invariant DC T Ts v \<Longrightarrow> i < Suc (length Ts) \<Longrightarrow> i \<noteq> active_index v \<Longrightarrow>
   unified_cells (values v) ! i = uninitialised"
  by (auto simp: variant_invariant_iff)

lemma invariant_active_less:
  "variant_invariant DC T Ts v \<Longrightarrow> active_index v \<noteq> none_initialised T Ts \<Longrightarrow>
   active_index v < Suc (length Ts)"
  by (simp add: variant_invariant_iff none_initialised_eq)

lemma type_first_listed: "type_has X (T # Ts) \<Longrightarrow> type_first X (T # Ts) < Suc (length Ts)"
  using type_first_present [of X "T # Ts"] type_has_iff [of X "T # Ts"]
  by (simp del: type_has.simps type_first.simps)

lemma type_first_not_none:
  "type_has X (T # Ts) \<Longrightarrow> type_first X (T # Ts) \<noteq> none_initialised T Ts"
  using type_first_listed [of X T Ts]
  by (simp add: none_initialised_eq del: type_has.simps type_first.simps)

section \<open>The example variants satisfy the invariant\<close>

lemma holding_string_invariant: "variant_invariant DC ''int'' [''string''] (holding_string w)"
  by (simp add: variant_invariant_def holding_string_def none_initialised_def)

lemma holding_int_invariant: "variant_invariant DC ''int'' [''string''] (holding_int n)"
  by (simp add: variant_invariant_def holding_int_def none_initialised_def)

lemma holding_nothing_invariant: "variant_invariant True ''int'' [''string''] holding_nothing"
  by (simp add: variant_invariant_def holding_nothing_def none_initialised_def)

section \<open>Checked access\<close>

text \<open>
  C6. For a tagged value that satisfies the invariant and a listed alternative type \<open>X\<close>:
  when \<open>first(X)\<close> is the active index, \<open>get<X>()\<close> returns the member that holds the
  live value; when it is not, \<open>get<X>()\<close> raises \<open>bad_variant_access\<close>; and the empty
  variant is such a case, whatever \<open>X\<close> is.
\<close>

theorem variant_get_checked:
  assumes inv: "variant_invariant DC T Ts v" and has: "type_has X (T # Ts)"
  shows "(type_first X (T # Ts) = active_index v \<longrightarrow>
            (\<exists>x. unified_cells (values v) ! active_index v = object x \<and>
                 variant_get T Ts X v = Inr (object x))) \<and>
         (type_first X (T # Ts) \<noteq> active_index v \<longrightarrow>
            variant_get T Ts X v =
              Inl (bad_variant_access ''invalid access on currently not active object!'')) \<and>
         (active_index v = none_initialised T Ts \<longrightarrow>
            variant_get T Ts X v =
              Inl (bad_variant_access ''invalid access on currently not active object!''))"
proof (intro conjI impI)
  assume active: "type_first X (T # Ts) = active_index v"
  with has have "active_index v \<noteq> none_initialised T Ts"
    using type_first_not_none [of X T Ts] by simp
  with inv obtain x where x: "unified_cells (values v) ! active_index v = object x"
    using invariant_active_live [of DC T Ts v] by auto
  from has inv have "unified_get X (values v) = Inr (unified_cells (values v) ! type_first X (T # Ts))"
    using unified_get_first [of X "values v"] by (simp add: invariant_types)
  with active x has have "variant_get T Ts X v = Inr (object x)"
    by (simp add: variant_get_def)
  with x show "\<exists>x. unified_cells (values v) ! active_index v = object x \<and>
                   variant_get T Ts X v = Inr (object x)"
    by blast
next
  assume "type_first X (T # Ts) \<noteq> active_index v"
  with has show "variant_get T Ts X v =
      Inl (bad_variant_access ''invalid access on currently not active object!'')"
    by (simp add: variant_get_def)
next
  assume "active_index v = none_initialised T Ts"
  with has have "type_first X (T # Ts) \<noteq> active_index v"
    using type_first_not_none [of X T Ts] by simp
  with has show "variant_get T Ts X v =
      Inl (bad_variant_access ''invalid access on currently not active object!'')"
    by (simp add: variant_get_def)
qed

theorem variant_get_checked_witness:
  "variant_invariant True ''int'' [''string''] (holding_string ''hello'') \<and>
   variant_invariant True ''int'' [''string''] holding_nothing \<and>
   type_has ''string'' [''int'', ''string''] \<and> type_has ''int'' [''int'', ''string''] \<and>
   variant_get ''int'' [''string''] ''string'' (holding_string ''hello'') =
     Inr (object (string_value ''hello'')) \<and>
   variant_get ''int'' [''string''] ''int'' (holding_string ''hello'') =
     Inl (bad_variant_access ''invalid access on currently not active object!'') \<and>
   variant_get ''int'' [''string''] ''string'' holding_nothing =
     Inl (bad_variant_access ''invalid access on currently not active object!'')"
proof -
  have s: "type_has ''string'' [''int'', ''string'']" and i: "type_has ''int'' [''int'', ''string'']"
    by simp_all
  from variant_get_checked [OF holding_string_invariant [of True "''hello''"] s]
       variant_get_checked [OF holding_string_invariant [of True "''hello''"] i]
       variant_get_checked [OF holding_nothing_invariant s]
  show ?thesis
    using holding_string_invariant holding_nothing_invariant
    by (simp add: holding_string_def holding_nothing_def none_initialised_def)
qed

section \<open>Optional access\<close>

text \<open>
  C4. For a tagged value that satisfies the invariant and a listed alternative type \<open>X\<close>:
  when \<open>first(X)\<close> is the active index, \<open>try_get<X>()\<close> returns a present optional that
  holds the stored value (and the stored alternative is left in the moved-from state);
  otherwise it returns an absent optional and changes nothing.
\<close>

theorem variant_try_get_present_iff:
  assumes inv: "variant_invariant DC T Ts v" and has: "type_has X (T # Ts)"
  shows "(type_first X (T # Ts) = active_index v \<longrightarrow>
            (\<exists>x. unified_cells (values v) ! active_index v = object x \<and>
                 variant_try_get mv T Ts X v =
                   Inr (Some x,
                        v\<lparr>values := unified_update (active_index v) (object (mv x)) (values v)\<rparr>))) \<and>
         (type_first X (T # Ts) \<noteq> active_index v \<longrightarrow>
            variant_try_get mv T Ts X v = Inr (None, v))"
proof (intro conjI impI)
  have get: "unified_get X (values v) = Inr (unified_cells (values v) ! type_first X (T # Ts))"
    using has inv unified_get_first [of X "values v"] by (simp add: invariant_types)
  have put: "\<And>c. unified_put X c (values v) = unified_update (type_first X (T # Ts)) c (values v)"
    using has inv unified_put_first [of X "values v"] by (simp add: invariant_types)
  {
    assume active: "type_first X (T # Ts) = active_index v"
    with has have "active_index v \<noteq> none_initialised T Ts"
      using type_first_not_none [of X T Ts] by simp
    with inv obtain x where x: "unified_cells (values v) ! active_index v = object x"
      using invariant_active_live [of DC T Ts v] by auto
    with active has get put
    have "variant_try_get mv T Ts X v =
            Inr (Some x, v\<lparr>values := unified_update (active_index v) (object (mv x)) (values v)\<rparr>)"
      by (simp add: variant_try_get_def)
    with x show "\<exists>x. unified_cells (values v) ! active_index v = object x \<and>
                 variant_try_get mv T Ts X v =
                   Inr (Some x,
                        v\<lparr>values := unified_update (active_index v) (object (mv x)) (values v)\<rparr>)"
      by blast
  }
  {
    assume "type_first X (T # Ts) \<noteq> active_index v"
    with has get show "variant_try_get mv T Ts X v = Inr (None, v)"
      by (simp add: variant_try_get_def)
  }
qed

theorem variant_try_get_present_iff_witness:
  "variant_invariant True ''int'' [''string''] (holding_string ''hello'') \<and>
   type_has ''string'' [''int'', ''string''] \<and> type_has ''int'' [''int'', ''string''] \<and>
   variant_try_get moved_from ''int'' [''string''] ''string'' (holding_string ''hello'') =
     Inr (Some (string_value ''hello''), holding_string []) \<and>
   variant_try_get moved_from ''int'' [''string''] ''int'' (holding_string ''hello'') =
     Inr (None, holding_string ''hello'')"
proof -
  have s: "type_has ''string'' [''int'', ''string'']" and i: "type_has ''int'' [''int'', ''string'']"
    by simp_all
  from variant_try_get_present_iff [OF holding_string_invariant [of True "''hello''"] s, of moved_from]
       variant_try_get_present_iff [OF holding_string_invariant [of True "''hello''"] i, of moved_from]
  show ?thesis
    using holding_string_invariant
    by (auto simp: holding_string_def)
qed

section \<open>Storage with no live member, and re-establishing the invariant\<close>

lemma variant_fields [simp]:
  "(v :: ('t, 'v) variant)\<lparr>values := u, active_index := i\<rparr> = \<lparr>active_index = i, values = u\<rparr>"
  "(v :: ('t, 'v) variant)\<lparr>active_index := i, values := u\<rparr> = \<lparr>active_index = i, values = u\<rparr>"
  by (cases v; simp)+

lemma emptied_cells:
  assumes inv: "variant_invariant DC T Ts v" and i: "i < Suc (length Ts)"
  shows "unified_cells (unified_update (active_index v) uninitialised (values v)) ! i = uninitialised"
proof (cases "i = active_index v")
  case True
  with i inv show ?thesis by (simp add: unified_update_cells invariant_length)
next
  case False
  with i inv show ?thesis by (simp add: unified_update_cells invariant_inactive_raw)
qed

lemma empty_cells:
  "variant_invariant DC T Ts v \<Longrightarrow> active_index v = none_initialised T Ts \<Longrightarrow>
   i < Suc (length Ts) \<Longrightarrow> unified_cells (values v) ! i = uninitialised"
  using invariant_inactive_raw [of DC T Ts v i] by (simp add: none_initialised_eq)

lemma raw_storage_invariant:
  assumes "unified_types u = T # Ts"
    and "\<forall>i < Suc (length Ts). unified_cells u ! i = uninitialised"
  shows "variant_invariant True T Ts \<lparr>active_index = none_initialised T Ts, values = u\<rparr>"
  using assms by (simp add: variant_invariant_iff none_initialised_eq)

lemma one_live_invariant:
  assumes "unified_types u = T # Ts"
    and "\<forall>i < Suc (length Ts). unified_cells u ! i = uninitialised"
    and "k < Suc (length Ts)"
  shows "variant_invariant DC T Ts \<lparr>active_index = k, values = unified_update k (object x) u\<rparr>"
  using assms
  by (auto simp: variant_invariant_iff unified_update_types unified_update_cells
      unified_cells_length nth_list_update)

lemma same_live_invariant:
  assumes "variant_invariant DC T Ts v" and "active_index v \<noteq> none_initialised T Ts"
  shows "variant_invariant DC T Ts
           \<lparr>active_index = active_index v,
            values = unified_update (active_index v) (object y) (values v)\<rparr>"
  using assms
  by (auto simp: variant_invariant_iff unified_update_types unified_update_cells
      unified_cells_length nth_list_update none_initialised_eq)

section \<open>The storage calls of a variant that satisfies the invariant\<close>

lemma values_destruct_active:
  assumes inv: "variant_invariant DC T Ts (heap s self)"
    and live: "active_index (heap s self) \<noteq> none_initialised T Ts"
  shows "values_destruct self (active_index (heap s self)) s =
           Inr (set_values self
                  (unified_update (active_index (heap s self)) uninitialised (values (heap s self)))
                  (record_call self (call_destruct (active_index (heap s self))) s))"
proof -
  from inv live obtain x where "unified_cells (values (heap s self)) ! active_index (heap s self) = object x"
    using invariant_active_live [of DC T Ts "heap s self"] by auto
  moreover from inv live have "active_index (heap s self) < length (unified_cells (values (heap s self)))"
    by (simp add: invariant_length invariant_active_less)
  ultimately show ?thesis
    by (simp add: values_destruct_def unified_destruct_live)
qed

section \<open>Assigning the empty sentinel\<close>

text \<open>
  C9. For a nullable tagged value that satisfies the invariant, assigning the empty
  sentinel destructs the live alternative, if there is one, by one call of
  \<open>destruct\<close> at the active index, and leaves the variant empty with no member
  constructed; on an empty variant it changes nothing; so a second assignment of the
  sentinel changes nothing, and assigning it twice is assigning it once.
\<close>

theorem variant_assign_null_idempotent:
  assumes inv: "variant_invariant True T Ts (heap s self)"
  shows "(active_index (heap s self) \<noteq> none_initialised T Ts \<longrightarrow>
            variant_assign_null T Ts self s =
              Inr (s\<lparr>heap := (heap s)(self :=
                         \<lparr>active_index = none_initialised T Ts,
                          values = unified_update (active_index (heap s self)) uninitialised
                                     (values (heap s self))\<rparr>),
                     calls := calls s @ [(self, call_destruct (active_index (heap s self)))]\<rparr>)) \<and>
         (active_index (heap s self) = none_initialised T Ts \<longrightarrow>
            variant_assign_null T Ts self s = Inr s) \<and>
         (\<exists>s'. variant_assign_null T Ts self s = Inr s' \<and>
               active_index (heap s' self) = none_initialised T Ts \<and>
               list_all (\<lambda>c. c = uninitialised) (unified_cells (values (heap s' self))) \<and>
               variant_invariant True T Ts (heap s' self) \<and>
               variant_assign_null T Ts self s' = Inr s') \<and>
         bind_result (variant_assign_null T Ts self s) (variant_assign_null T Ts self) =
           variant_assign_null T Ts self s"
proof -
  let ?v = "heap s self"
  let ?N = "none_initialised T Ts"
  let ?u = "unified_update (active_index ?v) uninitialised (values ?v)"
  let ?s' = "s\<lparr>heap := (heap s)(self := \<lparr>active_index = ?N, values = ?u\<rparr>),
               calls := calls s @ [(self, call_destruct (active_index ?v))]\<rparr>"
  have live: "variant_assign_null T Ts self s = Inr ?s'" if "active_index ?v \<noteq> ?N"
    using that values_destruct_active [OF inv that]
    by (simp add: variant_assign_null_def set_values_def set_active_index_def record_call_def)
  have empty: "variant_assign_null T Ts self s = Inr s" if "active_index ?v = ?N"
    using that by (simp add: variant_assign_null_def)
  have again: "variant_assign_null T Ts self ?s' = Inr ?s'"
    by (simp add: variant_assign_null_def)
  have raw: "\<forall>i < Suc (length Ts). unified_cells ?u ! i = uninitialised"
    using emptied_cells [OF inv] by simp
  have types: "unified_types ?u = T # Ts"
    using inv by (simp add: unified_update_types invariant_types)
  have inv': "variant_invariant True T Ts (heap ?s' self)"
    using raw_storage_invariant [OF types raw] by simp
  have len: "length (unified_cells ?u) = Suc (length Ts)"
    using types by (simp add: unified_cells_length)
  have all_raw: "list_all (\<lambda>c. c = uninitialised) (unified_cells (values (heap ?s' self)))"
    using raw len by (simp add: list_all_length)
  have all_raw_empty: "list_all (\<lambda>c. c = uninitialised) (unified_cells (values ?v))"
    if "active_index ?v = ?N"
    using empty_cells [OF inv that] inv by (simp add: list_all_length invariant_length)
  have ex: "\<exists>s'. variant_assign_null T Ts self s = Inr s' \<and>
               active_index (heap s' self) = ?N \<and>
               list_all (\<lambda>c. c = uninitialised) (unified_cells (values (heap s' self))) \<and>
               variant_invariant True T Ts (heap s' self) \<and>
               variant_assign_null T Ts self s' = Inr s'"
  proof (cases "active_index ?v = ?N")
    case True
    with empty all_raw_empty inv show ?thesis by auto
  next
    case False
    show ?thesis
      by (rule exI [of _ ?s']) (use live [OF False] again inv' all_raw in simp)
  qed
  have twice: "bind_result (variant_assign_null T Ts self s) (variant_assign_null T Ts self) =
           variant_assign_null T Ts self s"
  proof (cases "active_index ?v = ?N")
    case True
    with empty show ?thesis by simp
  next
    case False
    with live again show ?thesis by simp
  qed
  from live empty ex twice show ?thesis by blast
qed


lemma example_heap:
  "heap example_state 1 = holding_string ''hello''"
  "heap example_state (Suc 0) = holding_string ''hello''"
  "heap example_state 2 = holding_int 42"
  "heap example_state 3 = holding_nothing"
  "heap example_state 4 = holding_string ''world''"
  "calls example_state = []"
  by (simp_all add: example_state_def)

lemma example_invariants:
  "variant_invariant DC ''int'' [''string''] (heap example_state 1)"
  "variant_invariant DC ''int'' [''string''] (heap example_state 2)"
  "variant_invariant DC ''int'' [''string''] (heap example_state 4)"
  "variant_invariant True ''int'' [''string''] (heap example_state 3)"
  "variant_invariant DC ''int'' [''string''] (heap example_state (Suc 0))"
  by (simp_all only: example_heap holding_string_invariant holding_int_invariant
      holding_nothing_invariant)

theorem variant_assign_null_idempotent_witness:
  "variant_invariant True ''int'' [''string''] (heap example_state 1) \<and>
   variant_invariant True ''int'' [''string''] (heap example_state 3) \<and>
   variant_assign_null ''int'' [''string''] 1 example_state =
     Inr (example_state\<lparr>heap := (heap example_state)(1 := holding_nothing),
                         calls := [(1, call_destruct 1)]\<rparr>) \<and>
   variant_assign_null ''int'' [''string''] 3 example_state = Inr example_state \<and>
   bind_result (variant_assign_null ''int'' [''string''] 1 example_state)
     (variant_assign_null ''int'' [''string''] 1) =
   variant_assign_null ''int'' [''string''] 1 example_state"
proof -
  note one = variant_assign_null_idempotent [OF example_invariants(1) [of True]]
  note three = variant_assign_null_idempotent [OF example_invariants(4)]
  have "variant_assign_null ''int'' [''string''] 1 example_state =
     Inr (example_state\<lparr>heap := (heap example_state)(1 := holding_nothing),
                         calls := [(1, call_destruct 1)]\<rparr>)"
    using one [THEN conjunct1]
    by (simp add: example_heap holding_string_def holding_nothing_def none_initialised_def
        numeral_2_eq_2)
  moreover have "variant_assign_null ''int'' [''string''] 3 example_state = Inr example_state"
    using three [THEN conjunct2, THEN conjunct1]
    by (simp add: example_heap holding_nothing_def none_initialised_def)
  ultimately show ?thesis
    using example_invariants(1) [of True] example_invariants(4)
      one [THEN conjunct2, THEN conjunct2, THEN conjunct2]
    by simp
qed

section \<open>Assigning an alternative value\<close>

lemma values_initialise_raw:
  assumes "unified_types (values (heap s self)) = T # Ts" and "type_has X (T # Ts)"
    and "unified_cells (values (heap s self)) ! type_first X (T # Ts) = uninitialised"
  shows "values_initialise self X x s =
           Inr (set_values self
                  (unified_update (type_first X (T # Ts)) (object x) (values (heap s self)))
                  (record_call self (call_initialise X) s))"
  using assms unified_initialise_raw [of X "values (heap s self)" x]
  by (simp add: values_initialise_def del: type_has.simps type_first.simps)

lemma values_assign_live:
  assumes "unified_types (values (heap s self)) = T # Ts" and "type_has X (T # Ts)"
    and "unified_cells (values (heap s self)) ! type_first X (T # Ts) = object y"
  shows "values_assign self X x s =
           Inr (set_values self
                  (unified_update (type_first X (T # Ts)) (object x) (values (heap s self)))
                  (record_call self (call_assign X) s))"
  using assms unified_assign_live [of X "values (heap s self)" y x]
  by (simp add: values_assign_def del: type_has.simps type_first.simps)

text \<open>
  C5. For a tagged value that satisfies the invariant and a value \<open>x\<close> of a listed
  alternative type \<open>X\<close>: an empty variant constructs the alternative from \<open>x\<close> (one call
  of \<open>initialise\<close>); a variant whose active alternative is \<open>X\<close> assigns \<open>x\<close> in place (one
  call of \<open>assign\<close>); any other variant destructs the old alternative once and then
  constructs the new one once (the calls \<open>destruct\<close>, \<open>initialise\<close> and no other). In
  all three cases the active index afterwards is \<open>first(X)\<close>, the member there holds
  \<open>x\<close>, and the invariant holds again.
\<close>

theorem variant_assign_cases:
  assumes inv: "variant_invariant DC T Ts (heap s self)" and has: "type_has X (T # Ts)"
  shows "(active_index (heap s self) = none_initialised T Ts \<longrightarrow>
            variant_assign T Ts X x self s =
              Inr (s\<lparr>heap := (heap s)(self :=
                         \<lparr>active_index = type_first X (T # Ts),
                          values = unified_update (type_first X (T # Ts)) (object x)
                                     (values (heap s self))\<rparr>),
                     calls := calls s @ [(self, call_initialise X)]\<rparr>)) \<and>
         (active_index (heap s self) = type_first X (T # Ts) \<longrightarrow>
            variant_assign T Ts X x self s =
              Inr (s\<lparr>heap := (heap s)(self :=
                         \<lparr>active_index = type_first X (T # Ts),
                          values = unified_update (type_first X (T # Ts)) (object x)
                                     (values (heap s self))\<rparr>),
                     calls := calls s @ [(self, call_assign X)]\<rparr>)) \<and>
         (active_index (heap s self) \<noteq> none_initialised T Ts \<and>
          active_index (heap s self) \<noteq> type_first X (T # Ts) \<longrightarrow>
            variant_assign T Ts X x self s =
              Inr (s\<lparr>heap := (heap s)(self :=
                         \<lparr>active_index = type_first X (T # Ts),
                          values = unified_update (type_first X (T # Ts)) (object x)
                                     (unified_update (active_index (heap s self)) uninitialised
                                        (values (heap s self)))\<rparr>),
                     calls := calls s @ [(self, call_destruct (active_index (heap s self))),
                                         (self, call_initialise X)]\<rparr>)) \<and>
         (\<exists>s'. variant_assign T Ts X x self s = Inr s' \<and>
               active_index (heap s' self) = type_first X (T # Ts) \<and>
               unified_cells (values (heap s' self)) ! type_first X (T # Ts) = object x \<and>
               variant_invariant DC T Ts (heap s' self))"
proof -
  let ?v = "heap s self"
  let ?N = "none_initialised T Ts"
  let ?k = "type_first X (T # Ts)"
  let ?u1 = "unified_update (active_index ?v) uninitialised (values ?v)"
  have k: "?k < Suc (length Ts)" and kN: "?k \<noteq> ?N"
    using has type_first_listed [of X T Ts] type_first_not_none [of X T Ts] by blast+
  have types: "unified_types (values ?v) = T # Ts"
    using inv by (rule invariant_types)
  have len: "length (unified_cells (values ?v)) = Suc (length Ts)"
    using inv by (rule invariant_length)
  note defs = variant_assign_def set_values_def set_active_index_def record_call_def Let_def
  have empty: "variant_assign T Ts X x self s =
      Inr (s\<lparr>heap := (heap s)(self :=
                 \<lparr>active_index = ?k, values = unified_update ?k (object x) (values ?v)\<rparr>),
             calls := calls s @ [(self, call_initialise X)]\<rparr>)"
    if "active_index ?v = ?N"
  proof -
    have "unified_cells (values ?v) ! ?k = uninitialised"
      using empty_cells [OF inv that k] .
    from values_initialise_raw [OF types has this, of x] that has show ?thesis
      by (simp add: defs del: type_has.simps type_first.simps)
  qed
  have same: "variant_assign T Ts X x self s =
      Inr (s\<lparr>heap := (heap s)(self :=
                 \<lparr>active_index = ?k, values = unified_update ?k (object x) (values ?v)\<rparr>),
             calls := calls s @ [(self, call_assign X)]\<rparr>)"
    if "active_index ?v = ?k"
  proof -
    from that kN have "active_index ?v \<noteq> ?N" by simp
    from invariant_active_live [OF inv this] that
    obtain y where "unified_cells (values ?v) ! ?k = object y" by auto
    from values_assign_live [OF types has this, of x] that has kN show ?thesis
      by (simp add: defs del: type_has.simps type_first.simps)
  qed
  have other: "variant_assign T Ts X x self s =
      Inr (s\<lparr>heap := (heap s)(self :=
                 \<lparr>active_index = ?k, values = unified_update ?k (object x) ?u1\<rparr>),
             calls := calls s @ [(self, call_destruct (active_index ?v)),
                                 (self, call_initialise X)]\<rparr>)"
    if live: "active_index ?v \<noteq> ?N" and differs: "active_index ?v \<noteq> ?k"
  proof -
    let ?s1 = "set_values self ?u1 (record_call self (call_destruct (active_index ?v)) s)"
    have d: "values_destruct self (active_index ?v) s = Inr ?s1"
      using values_destruct_active [OF inv live] .
    have v1: "values (heap ?s1 self) = ?u1"
      by (simp add: set_values_def record_call_def)
    have types1: "unified_types (values (heap ?s1 self)) = T # Ts"
      using types by (simp add: v1 unified_update_types)
    have raw1: "unified_cells (values (heap ?s1 self)) ! ?k = uninitialised"
      using emptied_cells [OF inv k] by (simp only: v1)
    from values_initialise_raw [OF types1 has raw1, of x] d live differs has show ?thesis
      by (simp add: defs v1 del: type_has.simps type_first.simps)
  qed
  have raw1: "\<forall>i < Suc (length Ts). unified_cells ?u1 ! i = uninitialised"
    using emptied_cells [OF inv] by simp
  have types1: "unified_types ?u1 = T # Ts"
    using types by (simp add: unified_update_types)
  have ex: "\<exists>s'. variant_assign T Ts X x self s = Inr s' \<and>
               active_index (heap s' self) = ?k \<and>
               unified_cells (values (heap s' self)) ! ?k = object x \<and>
               variant_invariant DC T Ts (heap s' self)"
  proof -
    consider (e) "active_index ?v = ?N" | (s) "active_index ?v = ?k"
      | (o) "active_index ?v \<noteq> ?N" "active_index ?v \<noteq> ?k" by blast
    then show ?thesis
    proof cases
      case e
      have "\<forall>i < Suc (length Ts). unified_cells (values ?v) ! i = uninitialised"
        using empty_cells [OF inv e] by simp
      from one_live_invariant [OF types this k, of DC x] empty [OF e] k len show ?thesis
        by (simp add: unified_update_cells del: type_has.simps type_first.simps)
    next
      case s
      with kN have "active_index ?v \<noteq> ?N" by simp
      from same_live_invariant [OF inv this, of x] same [OF s] s k len show ?thesis
        by (simp add: unified_update_cells del: type_has.simps type_first.simps)
    next
      case o
      have "length (unified_cells ?u1) = Suc (length Ts)"
        using len by (simp add: unified_update_cells)
      with one_live_invariant [OF types1 raw1 k, of DC x] other [OF o] k show ?thesis
        by (simp add: unified_update_cells del: type_has.simps type_first.simps)
    qed
  qed
  from empty same other ex show ?thesis by blast
qed

theorem variant_assign_cases_witness:
  "variant_invariant True ''int'' [''string''] (heap example_state 1) \<and>
   variant_invariant True ''int'' [''string''] (heap example_state 2) \<and>
   variant_invariant True ''int'' [''string''] (heap example_state 3) \<and>
   type_has ''string'' [''int'', ''string''] \<and>
   variant_assign ''int'' [''string''] ''string'' (string_value ''bye'') 3 example_state =
     Inr (example_state\<lparr>heap := (heap example_state)(3 := holding_string ''bye''),
                         calls := [(3, call_initialise ''string'')]\<rparr>) \<and>
   variant_assign ''int'' [''string''] ''string'' (string_value ''bye'') 1 example_state =
     Inr (example_state\<lparr>heap := (heap example_state)(1 := holding_string ''bye''),
                         calls := [(1, call_assign ''string'')]\<rparr>) \<and>
   variant_assign ''int'' [''string''] ''string'' (string_value ''bye'') 2 example_state =
     Inr (example_state\<lparr>heap := (heap example_state)(2 := holding_string ''bye''),
                         calls := [(2, call_destruct 0), (2, call_initialise ''string'')]\<rparr>)"
proof -
  have has: "type_has ''string'' [''int'', ''string'']" by simp
  note one = variant_assign_cases [OF example_invariants(1) [of True] has, of "string_value ''bye''"]
  note two = variant_assign_cases [OF example_invariants(2) [of True] has, of "string_value ''bye''"]
  note three = variant_assign_cases [OF example_invariants(4) has, of "string_value ''bye''"]
  have "variant_assign ''int'' [''string''] ''string'' (string_value ''bye'') 3 example_state =
     Inr (example_state\<lparr>heap := (heap example_state)(3 := holding_string ''bye''),
                         calls := [(3, call_initialise ''string'')]\<rparr>)"
    using three [THEN conjunct1]
    by (simp add: example_heap holding_string_def holding_nothing_def none_initialised_def)
  moreover
  have "variant_assign ''int'' [''string''] ''string'' (string_value ''bye'') 1 example_state =
     Inr (example_state\<lparr>heap := (heap example_state)(1 := holding_string ''bye''),
                         calls := [(1, call_assign ''string'')]\<rparr>)"
    using one [THEN conjunct2, THEN conjunct1]
    by (simp add: example_heap holding_string_def none_initialised_def)
  moreover
  have "variant_assign ''int'' [''string''] ''string'' (string_value ''bye'') 2 example_state =
     Inr (example_state\<lparr>heap := (heap example_state)(2 := holding_string ''bye''),
                         calls := [(2, call_destruct 0), (2, call_initialise ''string'')]\<rparr>)"
    using two [THEN conjunct2, THEN conjunct2, THEN conjunct1]
    by (simp add: example_heap holding_string_def holding_int_def none_initialised_def)
  ultimately show ?thesis
    using example_invariants(1,2) [of True] example_invariants(4) has
    by simp
qed

section \<open>The storage calls between two variants\<close>

lemma values_copy_live:
  assumes "unified_types (values (heap s self)) = T # Ts"
    and "unified_types (values (heap s other)) = T # Ts"
    and "i < Suc (length Ts)"
    and "unified_cells (values (heap s self)) ! i = object y"
    and "unified_cells (values (heap s other)) ! i = object x"
  shows "values_copy self i other s =
           Inr (set_values self (unified_update i (object x) (values (heap s self)))
                  (record_call self (call_copy i) s))"
  using assms unified_copy_live [of "values (heap s other)" "values (heap s self)" i y x]
  by (simp add: values_copy_def unified_cells_length)

lemma values_copy_raw:
  assumes "unified_types (values (heap s self)) = T # Ts"
    and "unified_types (values (heap s other)) = T # Ts"
    and "i < Suc (length Ts)"
    and "unified_cells (values (heap s self)) ! i = uninitialised"
  shows "values_copy self i other s = Inl lifetime_violation"
  using assms unified_copy_raw [of "values (heap s other)" "values (heap s self)" i]
  by (simp add: values_copy_def unified_cells_length)

lemma values_move_live:
  assumes "unified_types (values (heap s self)) = T # Ts"
    and "unified_types (values (heap s other)) = T # Ts"
    and "i < Suc (length Ts)"
    and "unified_cells (values (heap s self)) ! i = object y"
    and "unified_cells (values (heap s other)) ! i = object x"
  shows "values_move mv self i other s =
           Inr (set_values other (unified_update i (object (mv x)) (values (heap s other)))
                  (set_values self (unified_update i (object x) (values (heap s self)))
                     (record_call self (call_move i) s)))"
  using assms unified_move_live [of "values (heap s other)" "values (heap s self)" i y x mv]
  by (simp add: values_move_def unified_cells_length)

lemma values_move_raw:
  assumes "unified_types (values (heap s self)) = T # Ts"
    and "unified_types (values (heap s other)) = T # Ts"
    and "i < Suc (length Ts)"
    and "unified_cells (values (heap s self)) ! i = uninitialised"
  shows "values_move mv self i other s = Inl lifetime_violation"
  using assms unified_move_raw [of "values (heap s other)" "values (heap s self)" i mv]
  by (simp add: values_move_def unified_cells_length)

lemma values_initialise_copy_raw:
  assumes "unified_types (values (heap s self)) = T # Ts"
    and "unified_types (values (heap s other)) = T # Ts"
    and "i < Suc (length Ts)"
    and "unified_cells (values (heap s self)) ! i = uninitialised"
    and "unified_cells (values (heap s other)) ! i = object x"
  shows "values_initialise_copy self i other s =
           Inr (set_values self (unified_update i (object x) (values (heap s self)))
                  (record_call self (call_initialise_copy i) s))"
  using assms
    unified_initialise_copy_raw [of "values (heap s other)" "values (heap s self)" i x]
  by (simp add: values_initialise_copy_def unified_cells_length)

lemma values_initialise_move_raw:
  assumes "unified_types (values (heap s self)) = T # Ts"
    and "unified_types (values (heap s other)) = T # Ts"
    and "i < Suc (length Ts)"
    and "unified_cells (values (heap s self)) ! i = uninitialised"
    and "unified_cells (values (heap s other)) ! i = object x"
  shows "values_initialise_move mv self i other s =
           Inr (set_values other (unified_update i (object (mv x)) (values (heap s other)))
                  (set_values self (unified_update i (object x) (values (heap s self)))
                     (record_call self (call_initialise_move i) s)))"
  using assms
    unified_initialise_move_raw [of "values (heap s other)" "values (heap s self)" i x mv]
  by (simp add: values_initialise_move_def unified_cells_length)

section \<open>Construction from another variant\<close>

lemma unified_new_raw:
  "i < Suc (length Ts) \<Longrightarrow> unified_cells (unified_new T Ts) ! i = uninitialised"
  by (simp only: unified_new_cells nth_replicate)

lemma new_object_fields:
  "active_index (heap (new_object T Ts self i s) self) = i"
  "values (heap (new_object T Ts self i s) self) = unified_new T Ts"
  "p \<noteq> self \<Longrightarrow> heap (new_object T Ts self i s) p = heap s p"
  "calls (new_object T Ts self i s) = calls s"
  by (simp_all add: new_object_def)

lemma copy_construct_live:
  assumes inv: "variant_invariant DC T Ts (heap s other)"
    and live: "active_index (heap s other) \<noteq> none_initialised T Ts"
  shows "variant_copy_construct T Ts self other s = Inl lifetime_violation"
proof -
  let ?i = "active_index (heap s other)"
  let ?s1 = "new_object T Ts self ?i s"
  have i: "?i < Suc (length Ts)"
    using invariant_active_less [OF inv live] .
  have self_types: "unified_types (values (heap ?s1 self)) = T # Ts"
    by (simp add: new_object_fields unified_new_types)
  have other_types: "unified_types (values (heap ?s1 other)) = T # Ts"
    using inv by (cases "other = self") (simp_all add: new_object_fields unified_new_types invariant_types)
  have raw: "unified_cells (values (heap ?s1 self)) ! ?i = uninitialised"
    using i by (simp add: new_object_fields unified_new_raw)
  from values_copy_raw [OF self_types other_types i raw] live show ?thesis
    by (simp add: variant_copy_construct_def Let_def new_object_fields)
qed

lemma move_construct_live:
  assumes inv: "variant_invariant DC T Ts (heap s other)"
    and live: "active_index (heap s other) \<noteq> none_initialised T Ts"
  shows "variant_move_construct mv DC' T Ts self other s = Inl lifetime_violation"
proof -
  let ?i = "active_index (heap s other)"
  let ?s1 = "new_object T Ts self ?i s"
  have i: "?i < Suc (length Ts)"
    using invariant_active_less [OF inv live] .
  have self_types: "unified_types (values (heap ?s1 self)) = T # Ts"
    by (simp add: new_object_fields unified_new_types)
  have other_types: "unified_types (values (heap ?s1 other)) = T # Ts"
    using inv by (cases "other = self") (simp_all add: new_object_fields unified_new_types invariant_types)
  have raw: "unified_cells (values (heap ?s1 self)) ! ?i = uninitialised"
    using i by (simp add: new_object_fields unified_new_raw)
  from values_move_raw [OF self_types other_types i raw, of mv] live show ?thesis
    by (simp add: variant_move_construct_def Let_def new_object_fields)
qed

lemma copy_construct_empty:
  assumes "active_index (heap s other) = none_initialised T Ts"
  shows "variant_copy_construct T Ts self other s =
           Inr (new_object T Ts self (none_initialised T Ts) s)"
  using assms by (simp add: variant_copy_construct_def Let_def new_object_fields)


section \<open>Move assignment between two distinct variants\<close>

lemma unified_update_twice:
  "unified_update i c (unified_update i d u) = unified_update i c u"
proof (induction u arbitrary: i)
  case (unified_one T h)
  then show ?case by simp
next
  case (unified_more T h t)
  then show ?case by simp
qed

lemma state_eqI:
  "(\<And>p. heap s p = heap s' p) \<Longrightarrow> calls s = calls s' \<Longrightarrow> (s :: ('t, 'v) state) = s'"
  by (cases s; cases s') (simp add: fun_eq_iff)

lemma move_assign_distinct:
  assumes inv: "variant_invariant DC T Ts (heap s self)"
    and inv_other: "variant_invariant DC T Ts (heap s other)"
    and live: "active_index (heap s other) \<noteq> none_initialised T Ts"
    and distinct: "self \<noteq> other"
  shows "\<exists>x. unified_cells (values (heap s other)) ! active_index (heap s other) = object x \<and>
           variant_move_assign mv DC T Ts self other s =
             Inr (s\<lparr>heap := (heap s)
                       (self :=
                          \<lparr>active_index = active_index (heap s other),
                           values = unified_update (active_index (heap s other)) (object x)
                             (if active_index (heap s self) = none_initialised T Ts \<or>
                                 active_index (heap s self) = active_index (heap s other)
                              then values (heap s self)
                              else unified_update (active_index (heap s self)) uninitialised
                                     (values (heap s self)))\<rparr>,
                        other :=
                          (if DC
                           then \<lparr>active_index = none_initialised T Ts,
                                 values = unified_update (active_index (heap s other))
                                            uninitialised (values (heap s other))\<rparr>
                           else \<lparr>active_index = active_index (heap s other),
                                 values = unified_update (active_index (heap s other))
                                            (object (mv x)) (values (heap s other))\<rparr>)),
                    calls := calls s @
                      (if active_index (heap s self) = none_initialised T Ts
                       then [(self, call_initialise_move (active_index (heap s other)))]
                       else if active_index (heap s self) = active_index (heap s other)
                       then [(self, call_move (active_index (heap s other)))]
                       else [(self, call_destruct (active_index (heap s self))),
                             (self, call_initialise_move (active_index (heap s other)))]) @
                      (if DC then [(other, call_destruct (active_index (heap s other)))]
                       else [])\<rparr>)"
proof -
  let ?v = "heap s self" and ?w = "heap s other"
  let ?N = "none_initialised T Ts"
  let ?a = "active_index ?v" and ?b = "active_index ?w"
  from invariant_active_live [OF inv_other live]
  obtain x where x: "unified_cells (values ?w) ! ?b = object x" by auto
  have b: "?b < Suc (length Ts)"
    using invariant_active_less [OF inv_other live] .
  have types: "unified_types (values ?v) = T # Ts" and types_other: "unified_types (values ?w) = T # Ts"
    using inv inv_other by (simp_all add: invariant_types)
  have len_other: "length (unified_cells (values ?w)) = Suc (length Ts)"
    using inv_other by (rule invariant_length)
  note upd = set_values_def set_active_index_def record_call_def
  have moved_cell: "unified_cells (unified_update ?b (object (mv x)) (values ?w)) ! ?b = object (mv x)"
    using b len_other by (simp add: unified_update_cells)
  have destruct_other:
    "unified_destruct ?b (unified_update ?b (object (mv x)) (values ?w)) =
       Inr (unified_update ?b uninitialised (values ?w))"
    using unified_destruct_live [of ?b "unified_update ?b (object (mv x)) (values ?w)" "mv x"]
      moved_cell b len_other
    by (simp add: unified_update_cells unified_update_twice)
  have "variant_move_assign mv DC T Ts self other s =
             Inr (s\<lparr>heap := (heap s)
                       (self :=
                          \<lparr>active_index = ?b,
                           values = unified_update ?b (object x)
                             (if ?a = ?N \<or> ?a = ?b then values ?v
                              else unified_update ?a uninitialised (values ?v))\<rparr>,
                        other :=
                          (if DC
                           then \<lparr>active_index = ?N,
                                 values = unified_update ?b uninitialised (values ?w)\<rparr>
                           else \<lparr>active_index = ?b,
                                 values = unified_update ?b (object (mv x)) (values ?w)\<rparr>)),
                    calls := calls s @
                      (if ?a = ?N then [(self, call_initialise_move ?b)]
                       else if ?a = ?b then [(self, call_move ?b)]
                       else [(self, call_destruct ?a), (self, call_initialise_move ?b)]) @
                      (if DC then [(other, call_destruct ?b)] else [])\<rparr>)"
  proof -
    consider (empty) "?a = ?N" | (same) "?a \<noteq> ?N" "?a = ?b" | (differs) "?a \<noteq> ?N" "?a \<noteq> ?b"
      by blast
    then show ?thesis
    proof cases
      case empty
      have raw: "unified_cells (values ?v) ! ?b = uninitialised"
        using empty_cells [OF inv empty b] .
      from values_initialise_move_raw [OF types types_other b raw x, of mv]
        empty live distinct destruct_other
      show ?thesis
        by (auto simp: variant_move_assign_def values_destruct_def upd Let_def
            intro!: state_eqI)
    next
      case same
      from invariant_active_live [OF inv same(1)] same(2)
      obtain y where "unified_cells (values ?v) ! ?b = object y" by auto
      from values_move_live [OF types types_other b this x, of mv]
        same live distinct destruct_other
      show ?thesis
        by (auto simp: variant_move_assign_def values_destruct_def upd Let_def
            intro!: state_eqI)
    next
      case differs
      let ?u1 = "unified_update ?a uninitialised (values ?v)"
      let ?s1 = "set_values self ?u1 (record_call self (call_destruct ?a) s)"
      have d: "values_destruct self ?a s = Inr ?s1"
        using values_destruct_active [OF inv differs(1)] .
      have v1: "values (heap ?s1 self) = ?u1" and w1: "heap ?s1 other = ?w"
        using distinct by (simp_all add: upd)
      have types1: "unified_types (values (heap ?s1 self)) = T # Ts"
        using types by (simp add: v1 unified_update_types)
      have types_other1: "unified_types (values (heap ?s1 other)) = T # Ts"
        using types_other by (simp add: w1)
      have raw1: "unified_cells (values (heap ?s1 self)) ! ?b = uninitialised"
        using emptied_cells [OF inv b] by (simp only: v1)
      have x1: "unified_cells (values (heap ?s1 other)) ! ?b = object x"
        using x by (simp add: w1)
      from values_initialise_move_raw [OF types1 types_other1 b raw1 x1, of mv]
        d differs live distinct destruct_other
      show ?thesis
        by (auto simp: variant_move_assign_def values_destruct_def upd Let_def v1 w1
            intro!: state_eqI)
    qed
  qed
  with x show ?thesis by blast
qed


lemma raw_list:
  "length cs = n \<Longrightarrow> (\<forall>i < n. cs ! i = uninitialised) \<Longrightarrow> list_all (\<lambda>c. c = uninitialised) cs"
  by (simp add: list_all_length)

text \<open>
  C3, as amended. For a live nullable tagged value \<open>v\<close> (at \<open>other\<close>) and a destination
  that is another object (at \<open>self\<close>), both satisfying the invariant, move assignment
  leaves the destination holding \<open>v\<close>'s original value at \<open>v\<close>'s active index and leaves
  \<open>v\<close> empty: its alternative destructed by one call, its index \<open>NONE\<close>, no member
  constructed. The value arrives by \<open>initialise_move\<close> when the destination was empty,
  by \<open>destruct\<close> of the old alternative and then \<open>initialise_move\<close> when it held another
  alternative, and by the in-place \<open>move\<close> when it held the same alternative.
\<close>

theorem variant_move_assign_nullable:
  assumes inv: "variant_invariant True T Ts (heap s self)"
    and inv_other: "variant_invariant True T Ts (heap s other)"
    and live: "active_index (heap s other) \<noteq> none_initialised T Ts"
    and distinct: "self \<noteq> other"
  shows "\<exists>x s'. unified_cells (values (heap s other)) ! active_index (heap s other) = object x \<and>
           variant_move_assign mv True T Ts self other s = Inr s' \<and>
           active_index (heap s' self) = active_index (heap s other) \<and>
           unified_cells (values (heap s' self)) ! active_index (heap s other) = object x \<and>
           variant_invariant True T Ts (heap s' self) \<and>
           active_index (heap s' other) = none_initialised T Ts \<and>
           list_all (\<lambda>c. c = uninitialised) (unified_cells (values (heap s' other))) \<and>
           variant_invariant True T Ts (heap s' other) \<and>
           calls s' = calls s @
             (if active_index (heap s self) = none_initialised T Ts
              then [(self, call_initialise_move (active_index (heap s other)))]
              else if active_index (heap s self) = active_index (heap s other)
              then [(self, call_move (active_index (heap s other)))]
              else [(self, call_destruct (active_index (heap s self))),
                    (self, call_initialise_move (active_index (heap s other)))]) @
             [(other, call_destruct (active_index (heap s other)))]"
proof -
  let ?v = "heap s self" and ?w = "heap s other"
  let ?N = "none_initialised T Ts"
  let ?a = "active_index ?v" and ?b = "active_index ?w"
  let ?U = "if ?a = ?N \<or> ?a = ?b then values ?v else unified_update ?a uninitialised (values ?v)"
  let ?wu = "unified_update ?b uninitialised (values ?w)"
  from move_assign_distinct [OF inv inv_other live distinct, of mv]
  obtain x s' where x: "unified_cells (values ?w) ! ?b = object x"
    and run: "variant_move_assign mv True T Ts self other s = Inr s'"
    and self': "heap s' self = \<lparr>active_index = ?b, values = unified_update ?b (object x) ?U\<rparr>"
    and other': "heap s' other = \<lparr>active_index = ?N, values = ?wu\<rparr>"
    and calls': "calls s' = calls s @
             (if ?a = ?N then [(self, call_initialise_move ?b)]
              else if ?a = ?b then [(self, call_move ?b)]
              else [(self, call_destruct ?a), (self, call_initialise_move ?b)]) @
             [(other, call_destruct ?b)]"
    using distinct by auto
  have b: "?b < Suc (length Ts)"
    using invariant_active_less [OF inv_other live] .
  have types: "unified_types (values ?v) = T # Ts" and types_other: "unified_types (values ?w) = T # Ts"
    using inv inv_other by (simp_all add: invariant_types)
  have U_types: "unified_types ?U = T # Ts"
    using types by (simp add: unified_update_types)
  have U_len: "length (unified_cells ?U) = Suc (length Ts)"
    using U_types unified_cells_length [of ?U] by simp
  have held: "unified_cells (values (heap s' self)) ! ?b = object x"
    using b U_len by (simp add: self' unified_update_cells)
  have inv_self': "variant_invariant True T Ts (heap s' self)"
  proof (cases "?a = ?N")
    case True
    then have "\<forall>i < Suc (length Ts). unified_cells ?U ! i = uninitialised"
      using empty_cells [OF inv True] by simp
    from one_live_invariant [OF U_types this b, of True x] show ?thesis
      by (simp add: self')
  next
    case live_self: False
    show ?thesis
    proof (cases "?a = ?b")
      case True
      with same_live_invariant [OF inv live_self, of x] show ?thesis
        by (simp add: self')
    next
      case False
      with live_self have "\<forall>i < Suc (length Ts). unified_cells ?U ! i = uninitialised"
        using emptied_cells [OF inv] by simp
      from one_live_invariant [OF U_types this b, of True x] show ?thesis
        by (simp add: self')
    qed
  qed
  have wu_types: "unified_types ?wu = T # Ts"
    using types_other by (simp add: unified_update_types)
  have wu_raw: "\<forall>i < Suc (length Ts). unified_cells ?wu ! i = uninitialised"
    using emptied_cells [OF inv_other] by simp
  have wu_len: "length (unified_cells ?wu) = Suc (length Ts)"
    using wu_types unified_cells_length [of ?wu] by simp
  have inv_other': "variant_invariant True T Ts (heap s' other)"
    using raw_storage_invariant [OF wu_types wu_raw] by (simp add: other')
  have raw_other': "list_all (\<lambda>c. c = uninitialised) (unified_cells (values (heap s' other)))"
    using raw_list [OF wu_len wu_raw] by (simp add: other')
  from x run held inv_self' inv_other' raw_other' calls' show ?thesis
    by (simp add: self' other')
qed

theorem variant_move_assign_nullable_witness:
  "variant_invariant True ''int'' [''string''] (heap example_state 2) \<and>
   variant_invariant True ''int'' [''string''] (heap example_state 4) \<and>
   active_index (heap example_state 4) \<noteq> none_initialised ''int'' [''string''] \<and>
   (2::nat) \<noteq> 4 \<and>
   (\<exists>s'. variant_move_assign moved_from True ''int'' [''string''] 2 4 example_state = Inr s' \<and>
         active_index (heap s' 2) = 1 \<and>
         unified_cells (values (heap s' 2)) ! 1 = object (string_value ''world'') \<and>
         active_index (heap s' 4) = 2 \<and>
         calls s' = [(2, call_destruct 0), (2, call_initialise_move 1), (4, call_destruct 1)])"
proof -
  have live: "active_index (heap example_state 4) \<noteq> none_initialised ''int'' [''string'']"
    by (simp add: example_heap holding_string_def none_initialised_def)
  have distinct: "(2::nat) \<noteq> 4" by simp
  from variant_move_assign_nullable
         [OF example_invariants(2) [of True] example_invariants(3) [of True] live distinct,
          of moved_from]
  have "\<exists>s'. variant_move_assign moved_from True ''int'' [''string''] 2 4 example_state = Inr s' \<and>
         active_index (heap s' 2) = 1 \<and>
         unified_cells (values (heap s' 2)) ! 1 = object (string_value ''world'') \<and>
         active_index (heap s' 4) = 2 \<and>
         calls s' = [(2, call_destruct 0), (2, call_initialise_move 1), (4, call_destruct 1)]"
    by (auto simp: example_heap holding_string_def holding_int_def none_initialised_def)
  with live distinct example_invariants(2) [of True] example_invariants(3) [of True]
  show ?thesis by blast
qed


text \<open>
  The claim as stated fails in three places. Move assignment into a destination that
  holds the same alternative moves in place (the calls are \<open>move\<close> and the source's
  \<open>destruct\<close>; nothing is constructed). Move assignment of a variant to itself leaves
  it empty, so the destination does not hold the value. And move construction calls
  \<open>move\<close> on the storage of the object under construction, where no alternative lives.
\<close>

theorem variant_move_not_by_construction:
  "variant_move_assign moved_from True ''int'' [''string''] 4 1 example_state =
     Inr (example_state\<lparr>heap := (heap example_state)
                                 (4 := holding_string ''hello'', 1 := holding_nothing),
                         calls := [(4, call_move 1), (1, call_destruct 1)]\<rparr>) \<and>
   variant_move_assign moved_from True ''int'' [''string''] 1 1 example_state =
     Inr (example_state\<lparr>heap := (heap example_state)(1 := holding_nothing),
                         calls := [(1, call_move 1), (1, call_destruct 1)]\<rparr>) \<and>
   variant_move_construct moved_from True ''int'' [''string''] 5 1 example_state =
     Inl lifetime_violation"
proof -
  note defs = variant_move_assign_def values_move_def values_destruct_def
    set_values_def set_active_index_def record_call_def Let_def
    example_heap holding_string_def holding_nothing_def none_initialised_def
  have "variant_move_assign moved_from True ''int'' [''string''] 4 1 example_state =
     Inr (example_state\<lparr>heap := (heap example_state)
                                 (4 := holding_string ''hello'', 1 := holding_nothing),
                         calls := [(4, call_move 1), (1, call_destruct 1)]\<rparr>)"
    by (auto simp: defs intro!: state_eqI)
  moreover
  have "variant_move_assign moved_from True ''int'' [''string''] 1 1 example_state =
     Inr (example_state\<lparr>heap := (heap example_state)(1 := holding_nothing),
                         calls := [(1, call_move 1), (1, call_destruct 1)]\<rparr>)"
    by (auto simp: defs intro!: state_eqI)
  moreover
  have "active_index (heap example_state 1) \<noteq> none_initialised ''int'' [''string'']"
    by (simp add: example_heap holding_string_def none_initialised_def)
  from move_construct_live [OF example_invariants(1) [of True] this]
  have "variant_move_construct moved_from True ''int'' [''string''] 5 1 example_state =
     Inl lifetime_violation" .
  ultimately show ?thesis by blast
qed

section \<open>Copy construction\<close>

text \<open>
  C2. The copy constructor copies the source's active index, and for a live source it
  calls the storage's \<open>copy\<close>, the function that assigns to an alternative already
  constructed, on the storage of the object under construction, where no alternative
  has been constructed. The assignment operator of the alternative type then runs on
  raw storage. (Copy assignment into an empty variant calls \<open>initialise_copy\<close>.)
\<close>

theorem variant_copy_construct_assigns:
  assumes inv: "variant_invariant DC T Ts (heap s other)"
    and live: "active_index (heap s other) \<noteq> none_initialised T Ts"
  shows "variant_copy_construct T Ts self other s =
           values_copy self (active_index (heap s other)) other
             (new_object T Ts self (active_index (heap s other)) s) \<and>
         variant_copy_construct T Ts self other s = Inl lifetime_violation"
  using copy_construct_live [OF inv live, of self] live
  by (simp add: variant_copy_construct_def Let_def new_object_fields)

theorem variant_copy_construct_assigns_witness:
  "variant_invariant True ''int'' [''string''] (heap example_state 1) \<and>
   active_index (heap example_state 1) \<noteq> none_initialised ''int'' [''string''] \<and>
   variant_copy_construct ''int'' [''string''] 5 1 example_state = Inl lifetime_violation"
proof -
  have live: "active_index (heap example_state 1) \<noteq> none_initialised ''int'' [''string'']"
    by (simp add: example_heap holding_string_def none_initialised_def)
  from variant_copy_construct_assigns [OF example_invariants(1) [of True] live, of 5]
  show ?thesis
    using live example_invariants(1) [of True] by blast
qed

section \<open>Comparison of two variants\<close>

text \<open>
  C1. For two empty variants over any alternative list, \<open>==\<close> yields true, but \<open>!=\<close>
  does not yield false: its left operand does not decide, so it calls \<open>is_not_equal\<close>
  with the index \<open>N\<close>, which no member has, and the assertion \<open>index == 0\<close> of the last
  member fails.
\<close>

theorem variant_not_equal_empty:
  "variant_equal eq T Ts
     \<lparr>active_index = none_initialised T Ts, values = u\<rparr>
     \<lparr>active_index = none_initialised T Ts, values = u'\<rparr> = Inr True \<and>
   variant_not_equal ne T Ts
     \<lparr>active_index = none_initialised T Ts, values = unified_new T Ts\<rparr>
     \<lparr>active_index = none_initialised T Ts, values = unified_new T Ts\<rparr> =
     Inl assertion_failure"
  by (simp add: variant_equal_def variant_not_equal_def unified_is_not_equal_range
      unified_new_cells none_initialised_eq)

text \<open>
  On every other pair of variants that satisfy the invariant the two operators do
  what C1 says, \<open>!=\<close> with the alternative's own \<open>!=\<close>.
\<close>

lemma variant_comparison_cases:
  assumes inv: "variant_invariant DC T Ts v" and inv': "variant_invariant DC T Ts w"
  shows "(active_index v \<noteq> active_index w \<longrightarrow>
            variant_equal eq T Ts v w = Inr False \<and> variant_not_equal ne T Ts v w = Inr True) \<and>
         (active_index v = active_index w \<and> active_index v \<noteq> none_initialised T Ts \<longrightarrow>
            (\<exists>x y. unified_cells (values v) ! active_index v = object x \<and>
                   unified_cells (values w) ! active_index v = object y \<and>
                   variant_equal eq T Ts v w = Inr (eq x y) \<and>
                   variant_not_equal ne T Ts v w = Inr (ne x y))) \<and>
         (active_index v = none_initialised T Ts \<and> active_index w = none_initialised T Ts \<longrightarrow>
            variant_equal eq T Ts v w = Inr True \<and>
            variant_not_equal ne T Ts v w = Inl assertion_failure)"
proof (intro conjI impI)
  assume "active_index v \<noteq> active_index w"
  then show "variant_equal eq T Ts v w = Inr False" "variant_not_equal ne T Ts v w = Inr True"
    by (simp_all add: variant_equal_def variant_not_equal_def)
next
  assume same: "active_index v = active_index w \<and> active_index v \<noteq> none_initialised T Ts"
  then have live: "active_index v \<noteq> none_initialised T Ts"
    and live': "active_index w \<noteq> none_initialised T Ts" by simp_all
  from invariant_active_live [OF inv live]
  obtain x where x: "unified_cells (values v) ! active_index v = object x" by auto
  from invariant_active_live [OF inv' live'] same
  obtain y where y: "unified_cells (values w) ! active_index v = object y" by auto
  have types: "unified_types (values w) = unified_types (values v)"
    using inv inv' by (simp add: invariant_types)
  have a: "active_index v < length (unified_cells (values v))"
    using inv live by (simp add: invariant_length invariant_active_less)
  from unified_is_equal_live [OF types a x y, of eq]
    unified_is_not_equal_live [OF types a x y, of ne] same x y
  show "\<exists>x y. unified_cells (values v) ! active_index v = object x \<and>
              unified_cells (values w) ! active_index v = object y \<and>
              variant_equal eq T Ts v w = Inr (eq x y) \<and>
              variant_not_equal ne T Ts v w = Inr (ne x y)"
    by (simp add: variant_equal_def variant_not_equal_def)
next
  assume empty: "active_index v = none_initialised T Ts \<and> active_index w = none_initialised T Ts"
  then show "variant_equal eq T Ts v w = Inr True"
    by (simp add: variant_equal_def)
  have "length (unified_cells (values v)) \<le> active_index v"
    using inv empty by (simp add: invariant_length none_initialised_eq)
  from unified_is_not_equal_range [OF this, of ne "values w"] empty
  show "variant_not_equal ne T Ts v w = Inl assertion_failure"
    by (simp add: variant_not_equal_def)
qed

section \<open>The operations that keep the invariant\<close>

lemma default_establishes_invariant:
  "variant_invariant True T Ts (heap (variant_default T Ts self s) self)"
proof -
  have "\<forall>i < Suc (length Ts). unified_cells (unified_new T Ts :: ('a, 'b) unified) ! i = uninitialised"
    by (simp add: unified_new_raw)
  from raw_storage_invariant [OF unified_new_types this] show ?thesis
    by (simp add: variant_default_def new_object_def)
qed

lemma construct_establishes_invariant:
  assumes has: "type_has X (T # Ts)"
  shows "\<exists>s'. variant_construct T Ts X x self s = Inr s' \<and>
              heap s' self =
                \<lparr>active_index = type_first X (T # Ts),
                 values = unified_update (type_first X (T # Ts)) (object x) (unified_new T Ts)\<rparr> \<and>
              calls s' = calls s @ [(self, call_initialise X)] \<and>
              variant_invariant DC T Ts (heap s' self)"
proof -
  let ?k = "type_first X (T # Ts)"
  let ?s1 = "new_object T Ts self ?k s"
  have k: "?k < Suc (length Ts)"
    using has by (rule type_first_listed)
  have types: "unified_types (values (heap ?s1 self)) = T # Ts"
    by (simp add: new_object_fields unified_new_types)
  have raw: "unified_cells (values (heap ?s1 self)) ! ?k = uninitialised"
    using k by (simp add: new_object_fields unified_new_raw)
  have all_raw: "\<forall>i < Suc (length Ts). unified_cells (unified_new T Ts :: ('a, 'b) unified) ! i = uninitialised"
    by (simp add: unified_new_raw)
  from values_initialise_raw [OF types has raw, of x] has
  have "variant_construct T Ts X x self s =
          Inr (set_values self (unified_update ?k (object x) (unified_new T Ts))
                 (record_call self (call_initialise X) ?s1))"
    by (simp add: variant_construct_def new_object_fields del: type_has.simps type_first.simps)
  with one_live_invariant [OF unified_new_types all_raw k, of DC x] show ?thesis
    by (simp add: set_values_def record_call_def new_object_def
        del: type_has.simps type_first.simps)
qed

lemma destroy_releases:
  assumes inv: "variant_invariant DC T Ts (heap s self)"
  shows "\<exists>s'. variant_destroy T Ts self s = Inr s' \<and>
              list_all (\<lambda>c. c = uninitialised) (unified_cells (values (heap s' self))) \<and>
              calls s' = calls s @
                (if active_index (heap s self) = none_initialised T Ts then []
                 else [(self, call_destruct (active_index (heap s self)))])"
proof (cases "active_index (heap s self) = none_initialised T Ts")
  case True
  have "list_all (\<lambda>c. c = uninitialised) (unified_cells (values (heap s self)))"
    using raw_list [OF invariant_length [OF inv]] empty_cells [OF inv True] by simp
  with True show ?thesis by (simp add: variant_destroy_def)
next
  case False
  let ?u = "unified_update (active_index (heap s self)) uninitialised (values (heap s self))"
  have "length (unified_cells ?u) = Suc (length Ts)"
    using invariant_length [OF inv] by (simp add: unified_update_cells)
  from raw_list [OF this] emptied_cells [OF inv]
  have "list_all (\<lambda>c. c = uninitialised) (unified_cells ?u)" by simp
  with values_destruct_active [OF inv False] False show ?thesis
    by (simp add: variant_destroy_def set_values_def record_call_def)
qed

lemma try_get_preserves_invariant:
  assumes inv: "variant_invariant DC T Ts v" and has: "type_has X (T # Ts)"
  shows "\<exists>r v'. variant_try_get mv T Ts X v = Inr (r, v') \<and> variant_invariant DC T Ts v' \<and>
                active_index v' = active_index v"
proof (cases "type_first X (T # Ts) = active_index v")
  case True
  with has have live: "active_index v \<noteq> none_initialised T Ts"
    using type_first_not_none [of X T Ts] by simp
  from invariant_active_live [OF inv live]
  obtain x where x: "unified_cells (values v) ! active_index v = object x" by auto
  have get: "unified_get X (values v) = Inr (unified_cells (values v) ! type_first X (T # Ts))"
    using has inv unified_get_first [of X "values v"] by (simp add: invariant_types)
  have put: "\<And>c. unified_put X c (values v) = unified_update (type_first X (T # Ts)) c (values v)"
    using has inv unified_put_first [of X "values v"] by (simp add: invariant_types)
  have "variant_try_get mv T Ts X v =
          Inr (Some x, v\<lparr>values := unified_update (active_index v) (object (mv x)) (values v)\<rparr>)"
    using True x has get put by (simp add: variant_try_get_def)
  moreover have "v\<lparr>values := unified_update (active_index v) (object (mv x)) (values v)\<rparr> =
      \<lparr>active_index = active_index v,
       values = unified_update (active_index v) (object (mv x)) (values v)\<rparr>"
    by (cases v) simp
  ultimately show ?thesis
    using same_live_invariant [OF inv live, of "mv x"] by simp
next
  case False
  have get: "unified_get X (values v) = Inr (unified_cells (values v) ! type_first X (T # Ts))"
    using has inv unified_get_first [of X "values v"] by (simp add: invariant_types)
  with False has inv show ?thesis
    by (simp add: variant_try_get_def)
qed

text \<open>
  Copy assignment, in its four cases; \<open>other\<close> may be \<open>self\<close>. It constructs with
  \<open>initialise_copy\<close> wherever the destination holds no alternative of the source's type.
\<close>

lemma copy_assign_preserves_invariant:
  assumes inv: "variant_invariant DC T Ts (heap s self)"
    and inv_other: "variant_invariant DC T Ts (heap s other)"
  shows "\<exists>s'. variant_copy_assign T Ts self other s = Inr s' \<and>
              variant_invariant DC T Ts (heap s' self) \<and>
              active_index (heap s' self) = active_index (heap s other) \<and>
              (active_index (heap s other) \<noteq> none_initialised T Ts \<longrightarrow>
                 unified_cells (values (heap s' self)) ! active_index (heap s other) =
                 unified_cells (values (heap s other)) ! active_index (heap s other)) \<and>
              (\<forall>p. p \<noteq> self \<longrightarrow> heap s' p = heap s p) \<and>
              calls s' = calls s @
                (if active_index (heap s other) = none_initialised T Ts
                 then (if active_index (heap s self) = none_initialised T Ts then []
                       else [(self, call_destruct (active_index (heap s self)))])
                 else if active_index (heap s self) = none_initialised T Ts
                 then [(self, call_initialise_copy (active_index (heap s other)))]
                 else if active_index (heap s self) = active_index (heap s other)
                 then [(self, call_copy (active_index (heap s other)))]
                 else [(self, call_destruct (active_index (heap s self))),
                       (self, call_initialise_copy (active_index (heap s other)))])"
proof -
  let ?v = "heap s self" and ?w = "heap s other"
  let ?N = "none_initialised T Ts"
  let ?a = "active_index ?v" and ?b = "active_index ?w"
  have types: "unified_types (values ?v) = T # Ts" and types_other: "unified_types (values ?w) = T # Ts"
    using inv inv_other by (simp_all add: invariant_types)
  have len: "length (unified_cells (values ?v)) = Suc (length Ts)"
    using inv by (rule invariant_length)
  note upd = set_values_def set_active_index_def record_call_def
  consider (both_empty) "?a = ?N" "?b = ?N" | (release) "?a \<noteq> ?N" "?b = ?N"
    | (fill) "?a = ?N" "?b \<noteq> ?N" | (same) "?a \<noteq> ?N" "?b \<noteq> ?N" "?a = ?b"
    | (differs) "?a \<noteq> ?N" "?b \<noteq> ?N" "?a \<noteq> ?b"
    by blast
  then show ?thesis
  proof cases
    case both_empty
    have "variant_invariant DC T Ts (?v\<lparr>active_index := ?N\<rparr>)"
      using both_empty inv by (simp add: variant_invariant_iff)
    with both_empty show ?thesis
      by (simp add: variant_copy_assign_def upd)
  next
    case release
    let ?u = "unified_update ?a uninitialised (values ?v)"
    have t: "unified_types ?u = T # Ts"
      using types by (simp add: unified_update_types)
    have "\<forall>i < Suc (length Ts). unified_cells ?u ! i = uninitialised"
      using emptied_cells [OF inv] by simp
    from raw_storage_invariant [OF t this] have "variant_invariant DC T Ts \<lparr>active_index = ?N, values = ?u\<rparr>"
      using inv_other release by (simp add: variant_invariant_iff none_initialised_eq)
    with values_destruct_active [OF inv release(1)] release show ?thesis
      by (auto simp: variant_copy_assign_def upd)
  next
    case fill
    from invariant_active_live [OF inv_other fill(2)]
    obtain x where x: "unified_cells (values ?w) ! ?b = object x" by auto
    have b: "?b < Suc (length Ts)"
      using invariant_active_less [OF inv_other fill(2)] .
    have raw: "unified_cells (values ?v) ! ?b = uninitialised"
      using empty_cells [OF inv fill(1) b] .
    have all_raw: "\<forall>i < Suc (length Ts). unified_cells (values ?v) ! i = uninitialised"
      using empty_cells [OF inv fill(1)] by simp
    from values_initialise_copy_raw [OF types types_other b raw x]
      one_live_invariant [OF types all_raw b, of DC x] fill x b len
    show ?thesis
      by (auto simp: variant_copy_assign_def upd unified_update_cells)
  next
    case same
    from invariant_active_live [OF inv_other same(2)]
    obtain x where x: "unified_cells (values ?w) ! ?b = object x" by auto
    from invariant_active_live [OF inv same(1)] same(3)
    obtain y where y: "unified_cells (values ?v) ! ?b = object y" by auto
    have b: "?b < Suc (length Ts)"
      using invariant_active_less [OF inv_other same(2)] .
    let ?u2 = "unified_update ?b (object x) (values ?v)"
    let ?s2 = "set_values self ?u2 (record_call self (call_copy ?b) s)"
    have c: "values_copy self ?a other s = Inr ?s2"
      using values_copy_live [OF types types_other b y x] same(3) by simp
    have idx: "active_index (heap ?s2 other) = ?b"
    proof (cases "other = self")
      case True
      then show ?thesis by (simp add: upd)
    next
      case False
      then show ?thesis by (simp add: upd)
    qed
    define s' where "s' = set_active_index self ?b ?s2"
    have run: "variant_copy_assign T Ts self other s = Inr s'"
      using c idx same(1,2) same(3) [symmetric] by (simp add: variant_copy_assign_def s'_def)
    have self': "heap s' self = \<lparr>active_index = ?b, values = ?u2\<rparr>"
      by (simp add: upd s'_def)
    have inv': "variant_invariant DC T Ts (heap s' self)"
      using same_live_invariant [OF inv same(1), of x] same(3) by (simp add: self')
    have cell: "unified_cells (values (heap s' self)) ! ?b = unified_cells (values ?w) ! ?b"
      using x b len by (simp add: self' unified_update_cells)
    have index': "active_index (heap s' self) = ?b"
      by (simp add: self')
    have frame: "\<forall>p. p \<noteq> self \<longrightarrow> heap s' p = heap s p"
      by (simp add: upd s'_def)
    have log: "calls s' = calls s @ [(self, call_copy ?b)]"
      by (simp add: upd s'_def)
    from run inv' cell index' frame log same(1,2) same(3) show ?thesis
      by (intro exI [of _ s']) simp
  next
    case differs
    then have distinct: "self \<noteq> other" by auto
    let ?u1 = "unified_update ?a uninitialised (values ?v)"
    let ?s1 = "set_values self ?u1 (record_call self (call_destruct ?a) s)"
    from invariant_active_live [OF inv_other differs(2)]
    obtain x where x: "unified_cells (values ?w) ! ?b = object x" by auto
    have b: "?b < Suc (length Ts)"
      using invariant_active_less [OF inv_other differs(2)] .
    have d: "values_destruct self ?a s = Inr ?s1"
      using values_destruct_active [OF inv differs(1)] .
    have v1: "values (heap ?s1 self) = ?u1" and w1: "heap ?s1 other = ?w"
      using distinct by (simp_all add: upd)
    have types1: "unified_types (values (heap ?s1 self)) = T # Ts"
      using types by (simp add: v1 unified_update_types)
    have types_other1: "unified_types (values (heap ?s1 other)) = T # Ts"
      using types_other by (simp add: w1)
    have raw1: "unified_cells (values (heap ?s1 self)) ! ?b = uninitialised"
      using emptied_cells [OF inv b] by (simp only: v1)
    have x1: "unified_cells (values (heap ?s1 other)) ! ?b = object x"
      using x by (simp add: w1)
    have u1_types: "unified_types ?u1 = T # Ts"
      using types by (simp add: unified_update_types)
    have u1_raw: "\<forall>i < Suc (length Ts). unified_cells ?u1 ! i = uninitialised"
      using emptied_cells [OF inv] by simp
    have u1_len: "length (unified_cells ?u1) = Suc (length Ts)"
      using len by (simp add: unified_update_cells)
    from values_initialise_copy_raw [OF types1 types_other1 b raw1 x1]
      one_live_invariant [OF u1_types u1_raw b, of DC x] d differs x b u1_len distinct
    show ?thesis
      by (auto simp: variant_copy_assign_def upd v1 w1 unified_update_cells)
  qed
qed


text \<open>
  Move assignment from an empty variant releases the destination's alternative, if
  it has one, and touches nothing else; \<open>other\<close> may be \<open>self\<close>.
\<close>

lemma move_assign_from_empty:
  assumes inv: "variant_invariant DC T Ts (heap s self)"
    and empty: "active_index (heap s other) = none_initialised T Ts"
  shows "\<exists>s'. variant_move_assign mv DC T Ts self other s = Inr s' \<and>
              active_index (heap s' self) = none_initialised T Ts \<and>
              list_all (\<lambda>c. c = uninitialised) (unified_cells (values (heap s' self))) \<and>
              (\<forall>p. p \<noteq> self \<longrightarrow> heap s' p = heap s p) \<and>
              calls s' = calls s @
                (if active_index (heap s self) = none_initialised T Ts then []
                 else [(self, call_destruct (active_index (heap s self)))])"
proof (cases "active_index (heap s self) = none_initialised T Ts")
  case True
  define s' where "s' = set_active_index self (none_initialised T Ts) s"
  have other': "active_index (heap s' other) = none_initialised T Ts"
    using empty by (cases "other = self") (simp_all add: s'_def set_active_index_def)
  have run: "variant_move_assign mv DC T Ts self other s = Inr s'"
    using True empty other' by (simp add: variant_move_assign_def Let_def s'_def)
  have values': "values (heap s' self) = values (heap s self)"
    by (simp add: s'_def set_active_index_def)
  have raw: "list_all (\<lambda>c. c = uninitialised) (unified_cells (values (heap s' self)))"
    using raw_list [OF invariant_length [OF inv]] empty_cells [OF inv True]
    by (simp add: values')
  have index': "active_index (heap s' self) = none_initialised T Ts"
    by (simp add: s'_def set_active_index_def)
  have frame: "\<forall>p. p \<noteq> self \<longrightarrow> heap s' p = heap s p"
    by (simp add: s'_def set_active_index_def)
  have log: "calls s' = calls s"
    by (simp add: s'_def set_active_index_def)
  from run raw index' frame log True show ?thesis
    by (intro exI [of _ s']) simp
next
  case False
  with empty have distinct: "other \<noteq> self" by auto
  let ?a = "active_index (heap s self)"
  let ?u = "unified_update ?a uninitialised (values (heap s self))"
  let ?s1 = "set_values self ?u (record_call self (call_destruct ?a) s)"
  define s' where "s' = set_active_index self (none_initialised T Ts) ?s1"
  have d: "values_destruct self ?a s = Inr ?s1"
    using values_destruct_active [OF inv False] .
  have other1: "active_index (heap ?s1 other) = none_initialised T Ts"
    using empty distinct by (simp add: set_values_def record_call_def)
  have other': "active_index (heap s' other) = none_initialised T Ts"
    using empty distinct by (simp add: s'_def set_values_def record_call_def set_active_index_def)
  have run: "variant_move_assign mv DC T Ts self other s = Inr s'"
    using False empty d other1 other' by (simp add: variant_move_assign_def Let_def s'_def)
  have values': "values (heap s' self) = ?u"
    by (simp add: s'_def set_values_def record_call_def set_active_index_def)
  have "length (unified_cells ?u) = Suc (length Ts)"
    using invariant_length [OF inv] by (simp add: unified_update_cells)
  from raw_list [OF this] emptied_cells [OF inv]
  have raw: "list_all (\<lambda>c. c = uninitialised) (unified_cells (values (heap s' self)))"
    by (simp add: values')
  have index': "active_index (heap s' self) = none_initialised T Ts"
    by (simp add: s'_def set_active_index_def)
  have frame: "\<forall>p. p \<noteq> self \<longrightarrow> heap s' p = heap s p"
    by (simp add: s'_def set_values_def record_call_def set_active_index_def)
  have log: "calls s' = calls s @ [(self, call_destruct ?a)]"
    by (simp add: s'_def set_values_def record_call_def set_active_index_def)
  from run raw index' frame log False show ?thesis
    by (intro exI [of _ s']) simp
qed

section \<open>The invariant under sequences of operations\<close>

text \<open>
  C7. Two sequences of public operations that start from nothing: a variant is
  constructed from the string \<open>hello\<close>, and then a second variant is copy constructed,
  or move constructed, from it. The first operation establishes the invariant; the
  second does not preserve it, since it assigns to an alternative of the new object
  that was never constructed, and no state results.
\<close>

theorem variant_construct_then_copy:
  "(\<exists>s1. variant_construct ''int'' [''string''] ''string'' (string_value ''hello'') 1 s = Inr s1 \<and>
         heap s1 1 = holding_string ''hello'' \<and>
         variant_invariant DC ''int'' [''string''] (heap s1 1)) \<and>
   bind_result
     (variant_construct ''int'' [''string''] ''string'' (string_value ''hello'') 1 s)
     (variant_copy_construct ''int'' [''string''] 2 1) = Inl lifetime_violation \<and>
   bind_result
     (variant_construct ''int'' [''string''] ''string'' (string_value ''hello'') 1 s)
     (variant_move_construct moved_from DC ''int'' [''string''] 2 1) = Inl lifetime_violation"
proof -
  let ?s1 = "s\<lparr>heap := (heap s)(1 := holding_string ''hello''),
               calls := calls s @ [(1, call_initialise ''string'')]\<rparr>"
  have run: "variant_construct ''int'' [''string''] ''string'' (string_value ''hello'') 1 s = Inr ?s1"
    by (simp add: variant_construct_def values_initialise_def new_object_def set_values_def
        record_call_def holding_string_def)
  have h: "heap ?s1 1 = holding_string ''hello''" by simp
  have inv: "variant_invariant DC ''int'' [''string''] (heap ?s1 1)"
    using holding_string_invariant by (simp only: h)
  have live: "active_index (heap ?s1 1) \<noteq> none_initialised ''int'' [''string'']"
    by (simp add: holding_string_def none_initialised_def)
  from copy_construct_live [OF inv live, of 2] move_construct_live [OF inv live, of moved_from DC 2]
    run h inv
  show ?thesis by simp
qed

end
